theory Spec2Isabelle
  imports Main "HOL-Library.Word" "HOL-Library.Sublist"
begin

unbundle bit_operations_syntax

section \<open>MiniGit (reduced): a shallow embedding of minigit.py\<close>

text \<open>
  The program keeps all of its state in the file system: the staging index
  \<^verbatim>\<open>.minigit/index.json\<close>, one JSON record per commit under
  \<^verbatim>\<open>.minigit/commits\<close> and one blob per object under \<^verbatim>\<open>.minigit/objects\<close>,
  next to the files of the working tree. The model therefore has a single store,
  a map from path strings to nodes, and every command is a function from the
  store to an outcome: the store it leaves, the effects it performed in order
  (messages printed, files written, directories made) and either a result or the
  exception that ended it.
\<close>

subsection \<open>Paths (posixpath)\<close>

type_synonym path = string

definition sep :: char where
  "sep = CHR ''/''"

text \<open>\<^verbatim>\<open>os.path.join(a, b)\<close> for two components.\<close>

definition join :: "path \<Rightarrow> path \<Rightarrow> path" where
  "join a b =
     (if b \<noteq> [] \<and> hd b = sep then b
      else if a = [] \<or> last a = sep then a @ b
      else a @ [sep] @ b)"

text \<open>\<^verbatim>\<open>p.rstrip('/')\<close>.\<close>

definition rstrip_sep :: "path \<Rightarrow> path" where
  "rstrip_sep p = rev (dropWhile (\<lambda>c. c = sep) (rev p))"

text \<open>
  \<^verbatim>\<open>os.path.split(p)\<close>: the head is everything up to and including the last
  slash, with trailing slashes removed unless it consists of slashes only; the
  tail is what follows the last slash.
\<close>

definition split_path :: "path \<Rightarrow> path \<times> path" where
  "split_path p =
     (let head = rev (dropWhile (\<lambda>c. c \<noteq> sep) (rev p));
          tail = rev (takeWhile (\<lambda>c. c \<noteq> sep) (rev p))
      in (if head \<noteq> [] \<and> (\<exists>c \<in> set head. c \<noteq> sep) then rstrip_sep head else head, tail))"

definition basename :: "path \<Rightarrow> path" where
  "basename p = snd (split_path p)"

definition dirname :: "path \<Rightarrow> path" where
  "dirname p = fst (split_path p)"

text \<open>\<^verbatim>\<open>p.split('/')\<close> and \<^verbatim>\<open>'/'.join(comps)\<close>.\<close>

fun split_sep :: "path \<Rightarrow> path list" where
  "split_sep [] = [[]]"
| "split_sep (c # cs) =
     (if c = sep then [] # split_sep cs
      else (case split_sep cs of [] \<Rightarrow> [[c]] | w # ws \<Rightarrow> (c # w) # ws))"

fun join_sep :: "path list \<Rightarrow> path" where
  "join_sep [] = []"
| "join_sep [w] = w"
| "join_sep (w # ws) = w @ [sep] @ join_sep ws"

text \<open>
  The loop of \<^verbatim>\<open>os.path.normpath\<close> over the components: empty and \<^verbatim>\<open>.\<close>
  components are dropped, a \<^verbatim>\<open>..\<close> removes the component before it unless
  there is none to remove.
\<close>

fun norm_comps :: "bool \<Rightarrow> path list \<Rightarrow> path list \<Rightarrow> path list" where
  "norm_comps initial_slashes new_comps [] = new_comps"
| "norm_comps initial_slashes new_comps (cmp # comps) =
     (if cmp = [] \<or> cmp = ''.'' then norm_comps initial_slashes new_comps comps
      else if cmp \<noteq> ''..'' \<or> (\<not> initial_slashes \<and> new_comps = [])
              \<or> (new_comps \<noteq> [] \<and> last new_comps = ''..'')
      then norm_comps initial_slashes (new_comps @ [cmp]) comps
      else if new_comps \<noteq> [] then norm_comps initial_slashes (butlast new_comps) comps
      else norm_comps initial_slashes new_comps comps)"

definition normpath :: "path \<Rightarrow> path" where
  "normpath p =
     (if p = [] then ''.''
      else
        let initial_slashes :: nat =
              (if take 1 p = [sep] then
                 (if take 2 p = [sep, sep] \<and> take 3 p \<noteq> [sep, sep, sep] then 2 else 1)
               else 0);
            comps = norm_comps (initial_slashes \<noteq> 0) [] (split_sep p);
            q = replicate initial_slashes sep @ join_sep comps
        in if q = [] then ''.'' else q)"

definition MINIGIT_DIR :: path where
  "MINIGIT_DIR = ''.minigit''"

definition COMMITS_DIR :: path where
  "COMMITS_DIR = join MINIGIT_DIR ''commits''"

definition OBJECTS_DIR :: path where
  "OBJECTS_DIR = join MINIGIT_DIR ''objects''"

definition INDEX_FILE :: path where
  "INDEX_FILE = join MINIGIT_DIR ''index.json''"

subsection \<open>Digests and identifiers in hexadecimal\<close>

definition hex_digit :: "nat \<Rightarrow> char" where
  "hex_digit d = ''0123456789abcdef'' ! (d mod 16)"

text \<open>The \<open>n\<close> low hexadecimal digits of a word, most significant first.\<close>

definition hex_of :: "nat \<Rightarrow> 'a::len word \<Rightarrow> string" where
  "hex_of n w = map (\<lambda>i. hex_digit (unat (drop_bit (4 * i) w AND 15))) (rev [0..<n])"

text \<open>
  \<^verbatim>\<open>hashlib.sha1\<close> is a library function: the model takes the digest as a
  parameter \<open>sha1\<close> from a file's content to a 160-bit word and renders it as
  \<^verbatim>\<open>hexdigest()\<close> does. \<^verbatim>\<open>uuid.uuid4()\<close> is a 128-bit word supplied by the
  environment; \<^verbatim>\<open>.hex[:12]\<close> is the first twelve of its 32 digits.
\<close>

definition hexdigest :: "160 word \<Rightarrow> string" where
  "hexdigest w = hex_of 40 w"

definition uuid_hex :: "128 word \<Rightarrow> string" where
  "uuid_hex u = hex_of 32 u"

subsection \<open>JSON documents and the file system\<close>

record staged_entry =
  path :: path
  sha :: string

record file_meta =
  fpath :: path
  fobject :: string
  fsha :: string

record commit_obj =
  cid :: string
  timestamp :: string
  message :: string
  files :: "file_meta list option"

text \<open>
  A file's content is seen through \<^verbatim>\<open>json.load\<close> where the program parses
  it: an index document (the key \<^verbatim>\<open>staged\<close> may be absent), a commit document
  (the key \<^verbatim>\<open>files\<close> may be absent), or any other bytes.
\<close>

datatype content =
    Raw string
  | IndexJson "staged_entry list option"
  | CommitJson commit_obj

datatype node = Dir | File content

type_synonym fs = "path \<Rightarrow> node option"

datatype error =
    NotARepository
  | ArgFileNotFound path
  | CommitNotFound string
  | FileNotFoundError path
  | IsADirectoryError path
  | NotADirectoryError path
  | FileExistsError path
  | SameFileError path
  | JsonError path

datatype msg =
    MsgInit
  | MsgAdded path
  | MsgNothingToCommit
  | MsgVanished path
  | MsgCommitCreated string nat
  | MsgMissingObject string path
  | MsgRestored nat string

datatype event = Print msg | Write path content | Mkdir path

datatype 'a outcome =
    is_Done: Done (state_of: fs) (events_of: "event list") (result_of: 'a)
  | Failed (state_of: fs) (events_of: "event list") (error_of: error)

type_synonym 'a prog = "fs \<Rightarrow> 'a outcome"

definition ret :: "'a \<Rightarrow> 'a prog" where
  "ret a s = Done s [] a"

definition raise :: "error \<Rightarrow> 'a prog" where
  "raise e s = Failed s [] e"

definition print :: "msg \<Rightarrow> unit prog" where
  "print m s = Done s [Print m] ()"

text \<open>Sequencing: an exception ends the program, the effects so far are kept.\<close>

fun prepend :: "event list \<Rightarrow> 'a outcome \<Rightarrow> 'a outcome" where
  "prepend es1 (Done s2 es2 b) = Done s2 (es1 @ es2) b"
| "prepend es1 (Failed s2 es2 e) = Failed s2 (es1 @ es2) e"

definition bind :: "'a prog \<Rightarrow> ('a \<Rightarrow> 'b prog) \<Rightarrow> 'b prog" where
  "bind m k s =
     (case m s of
        Failed s1 es1 e \<Rightarrow> Failed s1 es1 e
      | Done s1 es1 a \<Rightarrow> prepend es1 (k a s1))"

definition exists :: "fs \<Rightarrow> path \<Rightarrow> bool" where
  "exists s p = (s p \<noteq> None)"

definition isdir :: "fs \<Rightarrow> path \<Rightarrow> bool" where
  "isdir s p = (s p = Some Dir)"

text \<open>
  The store is keyed by normalised spellings, and the two tests above look a
  path up as it is written: the program hands them a spelling it has
  normalised itself, a path it has read back from the index or from a record
  (which it wrote normalised), or a path joined from these. The one spelling
  that reaches the file system as the user typed it is the argument of
  \<^verbatim>\<open>add\<close>. For it, \<^verbatim>\<open>os.path.exists\<close> is modelled as the operating system
  resolves a spelling: component by component from the current directory or
  the root, where an empty component and \<^verbatim>\<open>.\<close> stay, \<^verbatim>\<open>..\<close> steps back, and any
  step can only be taken from a directory. The walk keeps the normalised
  spelling of the place it has reached, which is the key to look up at the end.
\<close>

definition is_root :: "path \<Rightarrow> bool" where
  "is_root p = (p \<noteq> [] \<and> set p \<subseteq> {sep})"

definition is_updir :: "path \<Rightarrow> bool" where
  "is_updir p = (p \<noteq> [] \<and> list_all (\<lambda>c. c = ''..'') (split_sep p))"

definition at_dir :: "fs \<Rightarrow> path \<Rightarrow> bool" where
  "at_dir s cur = (cur = [] \<or> is_root cur \<or> is_updir cur \<or> s cur = Some Dir)"

definition step_into :: "path \<Rightarrow> path \<Rightarrow> path" where
  "step_into cur c =
     (if c = [] \<or> c = ''.'' then cur
      else if c = ''..'' then
        (if cur = [] then ''..''
         else if is_root cur then cur
         else if is_updir cur then cur @ ''/..''
         else dirname cur)
      else join cur c)"

fun walk :: "fs \<Rightarrow> path \<Rightarrow> path list \<Rightarrow> path option" where
  "walk s cur [] = Some cur"
| "walk s cur (c # cs) = (if at_dir s cur then walk s (step_into cur c) cs else None)"

definition resolve :: "fs \<Rightarrow> path \<Rightarrow> path option" where
  "resolve s p =
     (if p = [] then None
      else walk s
             (if take 1 p = [sep] then
                (if take 2 p = [sep, sep] \<and> take 3 p \<noteq> [sep, sep, sep] then [sep, sep]
                 else [sep])
              else [])
             (split_sep p))"

definition exists_spelling :: "fs \<Rightarrow> path \<Rightarrow> bool" where
  "exists_spelling s p =
     (case resolve s p of
        None \<Rightarrow> False
      | Some k \<Rightarrow> k = [] \<or> is_root k \<or> is_updir k \<or> s k \<noteq> None)"

text \<open>
  A path can be created when its parent is the current directory or an existing
  directory.
\<close>

definition parent_check :: "fs \<Rightarrow> path \<Rightarrow> error option" where
  "parent_check s p =
     (let d = dirname p in
      if d = [] then None
      else (case s d of
              None \<Rightarrow> Some (FileNotFoundError p)
            | Some (File _) \<Rightarrow> Some (NotADirectoryError p)
            | Some Dir \<Rightarrow> None))"

text \<open>\<^verbatim>\<open>open(p, "r")\<close> and read.\<close>

definition read_file :: "path \<Rightarrow> content prog" where
  "read_file p s =
     (case s p of
        None \<Rightarrow> Failed s [] (FileNotFoundError p)
      | Some Dir \<Rightarrow> Failed s [] (IsADirectoryError p)
      | Some (File c) \<Rightarrow> Done s [] c)"

text \<open>\<^verbatim>\<open>open(p, "w")\<close> and write: the file is created or replaced.\<close>

definition write_file :: "path \<Rightarrow> content \<Rightarrow> unit prog" where
  "write_file p c s =
     (if s p = Some Dir then Failed s [] (IsADirectoryError p)
      else (case parent_check s p of
              Some e \<Rightarrow> Failed s [] e
            | None \<Rightarrow> Done (s(p \<mapsto> File c)) [Write p c] ()))"

text \<open>\<^verbatim>\<open>os.mkdir(p)\<close>.\<close>

definition mkdir :: "path \<Rightarrow> unit prog" where
  "mkdir p s =
     (if s p \<noteq> None then Failed s [] (FileExistsError p)
      else (case parent_check s p of
              Some e \<Rightarrow> Failed s [] e
            | None \<Rightarrow> Done (s(p \<mapsto> Dir)) [Mkdir p] ()))"

text \<open>
  \<^verbatim>\<open>shutil.copy2(src, dst)\<close>: when \<open>dst\<close> is a directory the file is copied
  into it under the source's base name; copying a file onto itself is refused.
  File metadata is not modelled.
\<close>

definition copy2 :: "path \<Rightarrow> path \<Rightarrow> unit prog" where
  "copy2 src dst s =
     (let dst' = (if isdir s dst then join dst (basename src) else dst) in
      if exists s src \<and> src = dst' then Failed s [] (SameFileError src)
      else bind (read_file src) (\<lambda>c. write_file dst' c) s)"

text \<open>
  \<^verbatim>\<open>os.mkdir\<close> inside \<^verbatim>\<open>os.makedirs(name, exist_ok=True)\<close>: an \<^verbatim>\<open>OSError\<close>
  is swallowed when the directory is there.
\<close>

definition mkdir_exist_ok :: "path \<Rightarrow> unit prog" where
  "mkdir_exist_ok name s =
     (case mkdir name s of
        Failed s1 es1 e \<Rightarrow> if isdir s1 name then Done s1 es1 () else Failed s1 es1 e
      | Done s1 es1 u \<Rightarrow> Done s1 es1 u)"

text \<open>
  The first lines of \<^verbatim>\<open>os.makedirs\<close>: split the name, and split the head
  again when the name ends in a slash.
\<close>

definition split_twice :: "path \<Rightarrow> path \<times> path" where
  "split_twice name =
     (case split_path name of
        (head, tail) \<Rightarrow> if tail = [] then split_path head else (head, tail))"

lemma length_rstrip_sep: "length (rstrip_sep p) \<le> length p"
  unfolding rstrip_sep_def using length_dropWhile_le[of "\<lambda>c. c = sep" "rev p"] by simp

lemma split_path_length:
  assumes "split_path p = (h, t)"
  shows "length h + length t \<le> length p"
proof -
  define raw where "raw = rev (dropWhile (\<lambda>c. c \<noteq> sep) (rev p))"
  have t: "t = rev (takeWhile (\<lambda>c. c \<noteq> sep) (rev p))"
    using assms by (simp add: split_path_def Let_def)
  have h: "h = (if raw \<noteq> [] \<and> (\<exists>c \<in> set raw. c \<noteq> sep) then rstrip_sep raw else raw)"
    using assms unfolding raw_def by (simp add: split_path_def Let_def)
  have "length h \<le> length raw"
    unfolding h using length_rstrip_sep[of raw] by (cases "raw \<noteq> [] \<and> (\<exists>c \<in> set raw. c \<noteq> sep)") simp_all
  moreover have "length (takeWhile (\<lambda>c. c \<noteq> sep) (rev p)) + length (dropWhile (\<lambda>c. c \<noteq> sep) (rev p))
                  = length (rev p)"
    by (simp only: length_append[symmetric] takeWhile_dropWhile_id)
  then have "length raw + length t = length p"
    unfolding t raw_def by simp
  ultimately show ?thesis by simp
qed

lemma split_twice_length:
  "split_twice name = (h, t) \<Longrightarrow> t \<noteq> [] \<Longrightarrow> length h < length name"
proof -
  assume a: "split_twice name = (h, t)" and t: "t \<noteq> []"
  obtain h0 t0 where s0: "split_path name = (h0, t0)" by (cases "split_path name")
  show ?thesis
  proof (cases "t0 = []")
    case True
    then have "split_path h0 = (h, t)" using a s0 by (simp add: split_twice_def)
    then have "length h < length h0" using split_path_length[of h0 h t] t by (cases t) auto
    moreover have "length h0 \<le> length name" using split_path_length[OF s0] by simp
    ultimately show ?thesis by simp
  next
    case False
    then have "h = h0" "t = t0" using a s0 by (simp_all add: split_twice_def)
    then show ?thesis using split_path_length[OF s0] t by (cases t) auto
  qed
qed

function makedirs :: "path \<Rightarrow> unit prog" where
  "makedirs name s =
     (case split_twice name of
        (head, tail) \<Rightarrow>
          if head \<noteq> [] \<and> tail \<noteq> [] \<and> \<not> exists s head then
            (case makedirs head s of
               Done s1 es1 u \<Rightarrow>
                 if tail = ''.'' then Done s1 es1 ()
                 else prepend es1 (mkdir_exist_ok name s1)
             | Failed s1 es1 e \<Rightarrow>
                 (case e of
                    FileExistsError p \<Rightarrow>
                      if tail = ''.'' then Done s1 es1 ()
                      else prepend es1 (mkdir_exist_ok name s1)
                  | _ \<Rightarrow> Failed s1 es1 e))
          else mkdir_exist_ok name s)"
  by pat_completeness auto
termination
  by (relation "measure (\<lambda>(name, s). length name)") (auto intro: split_twice_length[OF sym])

declare makedirs.simps [simp del]

subsection \<open>The commands of minigit.py\<close>

definition ensure_repo :: "unit prog" where
  "ensure_repo s =
     (if \<not> isdir s MINIGIT_DIR then Failed s [] NotARepository else Done s [] ())"

definition cmd_init :: "unit prog" where
  "cmd_init =
     bind (makedirs COMMITS_DIR) (\<lambda>u.
     bind (makedirs OBJECTS_DIR) (\<lambda>u.
     bind (\<lambda>s. if \<not> exists s INDEX_FILE
               then write_file INDEX_FILE (IndexJson (Some [])) s
               else ret () s) (\<lambda>u.
     print MsgInit)))"

text \<open>
  \<^verbatim>\<open>read_index\<close> returns the parsed document; a file of another shape makes
  the caller fail. \<^verbatim>\<open>get_staged\<close> is \<^verbatim>\<open>index.get("staged", [])\<close>.
\<close>

definition read_index :: "staged_entry list option prog" where
  "read_index s =
     (if \<not> exists s INDEX_FILE then Done s [] (Some [])
      else bind (read_file INDEX_FILE)
             (\<lambda>c. case c of IndexJson d \<Rightarrow> ret d | _ \<Rightarrow> raise (JsonError INDEX_FILE)) s)"

definition get_staged :: "staged_entry list option \<Rightarrow> staged_entry list" where
  "get_staged index = (case index of None \<Rightarrow> [] | Some l \<Rightarrow> l)"

definition write_index :: "staged_entry list option \<Rightarrow> unit prog" where
  "write_index data = write_file INDEX_FILE (IndexJson data)"

definition hash_file_bytes :: "(content \<Rightarrow> 160 word) \<Rightarrow> path \<Rightarrow> string prog" where
  "hash_file_bytes sha1 p = bind (read_file p) (\<lambda>c. ret (hexdigest (sha1 c)))"

definition cmd_add :: "(content \<Rightarrow> 160 word) \<Rightarrow> path \<Rightarrow> unit prog" where
  "cmd_add sha1 file =
     bind ensure_repo (\<lambda>u s.
       if \<not> exists_spelling s file then raise (ArgFileNotFound file) s
       else
         (let rel_path = normpath file in
          bind read_index (\<lambda>index.
            let staged = filter (\<lambda>e. path e \<noteq> rel_path) (get_staged index) in
            bind (hash_file_bytes sha1 rel_path) (\<lambda>sha_hex.
            bind (write_index (Some (staged @ [\<lparr>path = rel_path, sha = sha_hex\<rparr>]))) (\<lambda>u.
            print (MsgAdded rel_path))))) s)"

definition object_name_of :: "string \<Rightarrow> path \<Rightarrow> string" where
  "object_name_of sha_hex p = sha_hex @ ''_'' @ basename p"

text \<open>The loop of \<^verbatim>\<open>cmd_commit\<close> over the staged entries.\<close>

primrec commit_files ::
  "(content \<Rightarrow> 160 word) \<Rightarrow> staged_entry list \<Rightarrow> file_meta list \<Rightarrow> file_meta list prog"
where
  "commit_files sha1 [] = (\<lambda>files_metadata. ret files_metadata)"
| "commit_files sha1 (entry # staged) = (\<lambda>files_metadata s.
     let p = path entry in
     if \<not> exists s p then
       bind (print (MsgVanished p)) (\<lambda>u. commit_files sha1 staged files_metadata) s
     else
       bind (hash_file_bytes sha1 p) (\<lambda>sha_hex.
         let object_name = object_name_of sha_hex p;
             object_path = join OBJECTS_DIR object_name
         in
         bind (\<lambda>s. if \<not> exists s object_path then copy2 p object_path s else ret () s) (\<lambda>u.
         commit_files sha1 staged
           (files_metadata @ [\<lparr>fpath = p, fobject = object_name, fsha = sha_hex\<rparr>]))) s)"

definition commit_file_of :: "string \<Rightarrow> path" where
  "commit_file_of commit_id = join COMMITS_DIR (commit_id @ ''.json'')"

definition cmd_commit ::
  "(content \<Rightarrow> 160 word) \<Rightarrow> 128 word \<Rightarrow> string \<Rightarrow> string \<Rightarrow> unit prog" where
  "cmd_commit sha1 uuid4 now msg_text =
     bind ensure_repo (\<lambda>u.
     bind read_index (\<lambda>index.
       let staged = get_staged index in
       if staged = [] then print MsgNothingToCommit
       else
         (let commit_id = take 12 (uuid_hex uuid4);
              timestamp = now @ ''Z''
          in
          bind (commit_files sha1 staged []) (\<lambda>files_metadata.
            let commit = \<lparr>cid = commit_id, timestamp = timestamp, message = msg_text,
                          files = Some files_metadata\<rparr>
            in
            bind (write_file (commit_file_of commit_id) (CommitJson commit)) (\<lambda>u.
            bind (write_index (Some [])) (\<lambda>u.
            print (MsgCommitCreated commit_id (length files_metadata))))))))"

definition get_files :: "commit_obj \<Rightarrow> file_meta list" where
  "get_files commit = (case files commit of None \<Rightarrow> [] | Some l \<Rightarrow> l)"

text \<open>The loop of \<^verbatim>\<open>cmd_restore\<close> over the file entries of the record.\<close>

primrec restore_files :: "file_meta list \<Rightarrow> nat \<Rightarrow> nat prog" where
  "restore_files [] = (\<lambda>restored. ret restored)"
| "restore_files (fmeta # rest) = (\<lambda>restored s.
     let obj_name = fobject fmeta;
         object_path = join OBJECTS_DIR obj_name;
         target_path = fpath fmeta
     in
     if \<not> exists s object_path then
       bind (print (MsgMissingObject obj_name target_path)) (\<lambda>u. restore_files rest restored) s
     else
       (let target_dir = dirname target_path in
        bind (\<lambda>s. if target_dir \<noteq> [] \<and> \<not> exists s target_dir
                  then makedirs target_dir s else ret () s) (\<lambda>u.
        bind (copy2 object_path target_path) (\<lambda>u.
        restore_files rest (restored + 1)))) s)"

definition cmd_restore :: "string \<Rightarrow> unit prog" where
  "cmd_restore commit_id =
     bind ensure_repo (\<lambda>u s.
       let commit_file = commit_file_of commit_id in
       if \<not> exists s commit_file then raise (CommitNotFound commit_id) s
       else
         bind (read_file commit_file) (\<lambda>c.
           case c of
             CommitJson commit \<Rightarrow>
               bind (restore_files (get_files commit) 0) (\<lambda>restored.
               print (MsgRestored restored commit_id))
           | _ \<Rightarrow> raise (JsonError commit_file)) s)"

definition cmd_show_index :: "staged_entry list option prog" where
  "cmd_show_index = bind ensure_repo (\<lambda>u. read_index)"


fun apply_event :: "event \<Rightarrow> fs \<Rightarrow> fs" where
  "apply_event (Print m) s = s"
| "apply_event (Write p c) s = s(p \<mapsto> File c)"
| "apply_event (Mkdir p) s = s(p \<mapsto> Dir)"

definition replay :: "event list \<Rightarrow> fs \<Rightarrow> fs" where
  "replay es s = fold apply_event es s"

text \<open>The path an effect writes, if any.\<close>

fun touches :: "event \<Rightarrow> path \<Rightarrow> bool" where
  "touches (Print m) q = False"
| "touches (Write p c) q = (p = q)"
| "touches (Mkdir p) q = (p = q)"


definition in_objects :: "path \<Rightarrow> bool" where
  "in_objects p = prefix (OBJECTS_DIR @ [sep]) p"

text \<open>
  The entries staged in the index and their paths, in order (none when the index
  cannot be read).
\<close>

definition staged_of :: "fs \<Rightarrow> staged_entry list" where
  "staged_of s =
     (case read_index s of
        Done s1 es1 index \<Rightarrow> get_staged index
      | Failed s1 es1 e \<Rightarrow> [])"

definition index_paths :: "fs \<Rightarrow> path list" where
  "index_paths s = map path (staged_of s)"

subsection \<open>Auxiliary notions for the properties\<close>

text \<open>The staging index is empty: \<^verbatim>\<open>read_index\<close> yields no staged entry.\<close>

definition staging_is_empty :: "fs \<Rightarrow> bool" where
  "staging_is_empty s =
     (case read_index s of
        Done s1 es1 index \<Rightarrow> get_staged index = []
      | Failed s1 es1 e \<Rightarrow> False)"

text \<open>The record \<^verbatim>\<open>cmd_commit\<close> builds.\<close>

definition commit_record ::
  "128 word \<Rightarrow> string \<Rightarrow> string \<Rightarrow> file_meta list \<Rightarrow> commit_obj" where
  "commit_record uuid4 now msg_text fm =
     \<lparr>cid = take 12 (uuid_hex uuid4), timestamp = now @ ''Z'', message = msg_text,
      files = Some fm\<rparr>"

text \<open>A sequence of \<^verbatim>\<open>add\<close> commands, each run on the state the last one left.\<close>

definition stage_all :: "(content \<Rightarrow> 160 word) \<Rightarrow> path list \<Rightarrow> fs \<Rightarrow> fs" where
  "stage_all sha1 ps s = fold (\<lambda>p t. state_of (cmd_add sha1 p t)) ps s"

text \<open>The files written by a list of effects, in order.\<close>

fun writes_of :: "event list \<Rightarrow> (path \<times> content) list" where
  "writes_of [] = []"
| "writes_of (Write p c # es) = (p, c) # writes_of es"
| "writes_of (ev # es) = writes_of es"

text \<open>The file entries of the record stored under a commit id (none without a record).\<close>

definition recorded_files :: "fs \<Rightarrow> string \<Rightarrow> file_meta list" where
  "recorded_files s i =
     (case s (commit_file_of i) of
        Some (File (CommitJson commit)) \<Rightarrow> get_files commit
      | _ \<Rightarrow> [])"

text \<open>The entry \<^verbatim>\<open>cmd_commit\<close> records for a path whose file holds \<open>c\<close>.\<close>

definition meta_of :: "(content \<Rightarrow> 160 word) \<Rightarrow> path \<Rightarrow> content \<Rightarrow> file_meta" where
  "meta_of sha1 p c =
     \<lparr>fpath = p, fobject = object_name_of (hexdigest (sha1 c)) p, fsha = hexdigest (sha1 c)\<rparr>"

definition content_at :: "fs \<Rightarrow> path \<Rightarrow> content" where
  "content_at s p = (case s p of Some (File c) \<Rightarrow> c | _ \<Rightarrow> Raw [])"

subsection \<open>Example states\<close>

text \<open>
  A stand-in digest for the examples (the length of raw bytes), and a working tree
  with two files in which \<^verbatim>\<open>init\<close> has run.
\<close>

definition example_digest :: "content \<Rightarrow> 160 word" where
  "example_digest c =
     (case c of Raw b \<Rightarrow> word_of_nat (length b) | IndexJson d \<Rightarrow> 1000 | CommitJson r \<Rightarrow> 2000)"

definition example_tree :: fs where
  "example_tree = [''a.txt'' \<mapsto> File (Raw ''hello''), ''b.txt'' \<mapsto> File (Raw ''goodbye'')]"

definition example_repo :: fs where
  "example_repo = state_of (cmd_init example_tree)"

subsection \<open>Paths of the repository\<close>

lemma MINIGIT_paths:
  "MINIGIT_DIR = ''.minigit''"
  "COMMITS_DIR = ''.minigit/commits''" "OBJECTS_DIR = ''.minigit/objects''"
  "INDEX_FILE = ''.minigit/index.json''"
  by (simp_all add: COMMITS_DIR_def OBJECTS_DIR_def INDEX_FILE_def MINIGIT_DIR_def join_def sep_def)

lemma length_hex_of: "length (hex_of n w) = n"
  by (simp add: hex_of_def)

lemma hex_digit_in: "hex_digit d \<in> set ''0123456789abcdef''"
  unfolding hex_digit_def by (rule nth_mem) simp

lemma hex_no_sep: "sep \<notin> set (hex_of n w)"
proof
  assume "sep \<in> set (hex_of n w)"
  then obtain d where "sep = hex_digit d" by (auto simp: hex_of_def)
  then show False using hex_digit_in[of d] by (auto simp: sep_def)
qed

lemma hex_of_not_Nil: "0 < n \<Longrightarrow> hex_of n w \<noteq> []"
  using length_hex_of[of n w] by auto

lemma hd_hex_of: "0 < n \<Longrightarrow> hd (hex_of n w) \<noteq> sep"
  using hex_no_sep[of n w] hd_in_set[OF hex_of_not_Nil, of n w] by metis

lemma hexdigest_props:
  "hexdigest w \<noteq> []" "hd (hexdigest w) \<noteq> sep" "sep \<notin> set (hexdigest w)"
  "length (hexdigest w) = 40"
  by (simp_all add: hexdigest_def hex_of_not_Nil hd_hex_of hex_no_sep length_hex_of)


lemma object_path_eq:
  "join OBJECTS_DIR (object_name_of (hexdigest w) p)
     = ''.minigit/objects/'' @ hexdigest w @ ''_'' @ basename p"
  using hexdigest_props(1,2)[of w]
  by (simp add: join_def MINIGIT_paths object_name_of_def sep_def)

lemma commit_file_cases:
  "commit_file_of i =
     (if i \<noteq> [] \<and> hd i = sep then i @ ''.json'' else ''.minigit/commits/'' @ i @ ''.json'')"
  by (cases i) (simp_all add: commit_file_of_def join_def MINIGIT_paths sep_def)


lemma in_objects_iff: "in_objects q \<longleftrightarrow> prefix ''.minigit/objects/'' q"
  by (simp add: in_objects_def MINIGIT_paths sep_def)



lemma object_path_in_objects: "in_objects (join OBJECTS_DIR (object_name_of (hexdigest w) p))"
  by (simp add: object_path_eq in_objects_iff)

lemma INDEX_not_in_objects: "\<not> in_objects INDEX_FILE"
  by (simp add: in_objects_iff MINIGIT_paths)


lemma commit_file_not_in_objects: "\<not> in_objects (commit_file_of i)"
  by (cases i) (auto simp: in_objects_iff commit_file_cases sep_def)

lemma commit_file_neq_INDEX: "commit_file_of i \<noteq> INDEX_FILE"
  by (cases i) (auto simp: commit_file_cases MINIGIT_paths sep_def)

lemma commit_file_inj: "commit_file_of i = commit_file_of j \<Longrightarrow> i = j"
  by (cases i; cases j) (auto simp: commit_file_cases sep_def split: if_splits)

lemma basename_no_sep: "sep \<notin> set (basename p)"
  by (auto simp: basename_def split_path_def Let_def dest: set_takeWhileD)

lemma split_path_decomp:
  "p = rev (dropWhile (\<lambda>c. c \<noteq> sep) (rev p)) @ rev (takeWhile (\<lambda>c. c \<noteq> sep) (rev p))"
proof -
  have "rev p = takeWhile (\<lambda>c. c \<noteq> sep) (rev p) @ dropWhile (\<lambda>c. c \<noteq> sep) (rev p)"
    by (simp only: takeWhile_dropWhile_id)
  then have "rev (rev p) = rev (takeWhile (\<lambda>c. c \<noteq> sep) (rev p) @ dropWhile (\<lambda>c. c \<noteq> sep) (rev p))"
    by (rule arg_cong)
  then show ?thesis by (simp only: rev_rev_ident rev_append)
qed

lemma rstrip_sep_prefix: "prefix (rstrip_sep p) p"
proof -
  have "rev p = takeWhile (\<lambda>c. c = sep) (rev p) @ dropWhile (\<lambda>c. c = sep) (rev p)"
    by (simp only: takeWhile_dropWhile_id)
  then have "rev (rev p) = rev (takeWhile (\<lambda>c. c = sep) (rev p) @ dropWhile (\<lambda>c. c = sep) (rev p))"
    by (rule arg_cong)
  then have "p = rstrip_sep p @ rev (takeWhile (\<lambda>c. c = sep) (rev p))"
    by (simp only: rev_rev_ident rev_append rstrip_sep_def)
  then show ?thesis by (metis prefixI)
qed

lemma split_path_prefix: "split_path p = (h, t) \<Longrightarrow> prefix h p"
proof -
  assume a: "split_path p = (h, t)"
  define raw where "raw = rev (dropWhile (\<lambda>c. c \<noteq> sep) (rev p))"
  have "prefix raw p" unfolding raw_def using split_path_decomp[of p] by (metis prefixI)
  moreover have "h = raw \<or> h = rstrip_sep raw"
    using a unfolding raw_def split_path_def Let_def by (auto split: if_splits)
  ultimately show ?thesis using rstrip_sep_prefix[of raw] by (auto intro: prefix_order.trans)
qed

lemma dirname_prefix: "prefix (dirname p) p"
  using split_path_prefix[of p "fst (split_path p)" "snd (split_path p)"] by (simp add: dirname_def)

lemma split_twice_prefix: "split_twice name = (h, t) \<Longrightarrow> prefix h name"
proof -
  assume a: "split_twice name = (h, t)"
  obtain h0 t0 where s0: "split_path name = (h0, t0)" by (cases "split_path name")
  show ?thesis
  proof (cases "t0 = []")
    case True
    then have "split_path h0 = (h, t)" using a s0 by (simp add: split_twice_def)
    then show ?thesis using split_path_prefix[OF s0] split_path_prefix[of h0 h t]
      by (auto intro: prefix_order.trans)
  next
    case False
    then show ?thesis using a s0 split_path_prefix[OF s0] by (simp add: split_twice_def)
  qed
qed

lemma split_path_under:
  assumes "sep \<notin> set b" "a \<noteq> []" "last a \<noteq> sep"
  shows "split_path (a @ sep # b) = (a, b)"
proof -
  have nb: "\<And>x. x \<in> set (rev b) \<Longrightarrow> x \<noteq> sep"
    using assms(1) by auto
  have t: "takeWhile (\<lambda>c. c \<noteq> sep) (rev b @ sep # rev a) = rev b"
    using takeWhile_append2[where xs = "rev b" and P = "\<lambda>c. c \<noteq> sep" and ys = "sep # rev a", OF nb]
    by simp
  have d: "dropWhile (\<lambda>c. c \<noteq> sep) (rev b @ sep # rev a) = sep # rev a"
    using dropWhile_append2[where xs = "rev b" and P = "\<lambda>c. c \<noteq> sep" and ys = "sep # rev a", OF nb]
    by simp
  have nz: "\<exists>c \<in> set a. c \<noteq> sep" using assms(2,3) last_in_set by blast
  have r: "rstrip_sep (a @ [sep]) = a"
    using assms(2,3) by (cases "rev a") (auto simp: rstrip_sep_def)
  show ?thesis
    unfolding split_path_def Let_def using nz by (simp add: t d r)
qed


lemma dirname_INDEX_FILE: "dirname INDEX_FILE = MINIGIT_DIR"
proof -
  have "split_path (''.minigit'' @ sep # ''index.json'') = (''.minigit'', ''index.json'')"
    by (intro split_path_under) (simp_all add: sep_def)
  then show ?thesis by (simp add: dirname_def MINIGIT_paths sep_def)
qed

lemma dirname_object_path:
  "dirname (join OBJECTS_DIR (object_name_of (hexdigest w) p)) = OBJECTS_DIR"
proof -
  have "sep \<notin> set (hexdigest w @ ''_'' @ basename p)"
    using hexdigest_props(3)[of w] basename_no_sep[of p] by (simp add: sep_def)
  then have "split_path (''.minigit/objects'' @ sep # (hexdigest w @ ''_'' @ basename p))
          = (''.minigit/objects'', hexdigest w @ ''_'' @ basename p)"
    by (intro split_path_under) (simp_all add: sep_def)
  then show ?thesis unfolding dirname_def object_path_eq by (simp add: MINIGIT_paths sep_def)
qed

subsection \<open>Outcomes, sequencing and the primitives\<close>

lemma prepend_Nil: "prepend [] r = r"
  by (cases r) simp_all

lemma state_of_prepend: "state_of (prepend es r) = state_of r"
  by (cases r) simp_all

lemma events_of_prepend: "events_of (prepend es r) = es @ events_of r"
  by (cases r) simp_all

lemma is_Done_prepend: "is_Done (prepend es r) = is_Done r"
  by (cases r) simp_all

lemma prepend_eq_Done:
  "prepend es1 r = Done s es b \<longleftrightarrow> (\<exists>es2. r = Done s es2 b \<and> es = es1 @ es2)"
  by (cases r) auto

lemma prepend_eq_Failed:
  "prepend es1 r = Failed s es e \<longleftrightarrow> (\<exists>es2. r = Failed s es2 e \<and> es = es1 @ es2)"
  by (cases r) auto

lemma bind_eq_Done:
  "bind m k s = Done s' es b \<longleftrightarrow>
     (\<exists>s1 es1 a es2. m s = Done s1 es1 a \<and> k a s1 = Done s' es2 b \<and> es = es1 @ es2)"
  by (cases "m s") (auto simp: bind_def prepend_eq_Done)

lemma bind_eq_Failed:
  "bind m k s = Failed s' es e \<longleftrightarrow>
     (m s = Failed s' es e \<or>
      (\<exists>s1 es1 a es2. m s = Done s1 es1 a \<and> k a s1 = Failed s' es2 e \<and> es = es1 @ es2))"
  by (cases "m s") (auto simp: bind_def prepend_eq_Failed)

lemma bind_Done: "m s = Done s1 es1 a \<Longrightarrow> bind m k s = prepend es1 (k a s1)"
  by (simp add: bind_def)

lemma bind_Failed: "m s = Failed s1 es1 e \<Longrightarrow> bind m k s = Failed s1 es1 e"
  by (simp add: bind_def)

lemma replay_Nil: "replay [] s = s"
  by (simp add: replay_def)

lemma replay_Cons: "replay (e # es) s = replay es (apply_event e s)"
  by (simp add: replay_def)

lemma replay_append: "replay (es1 @ es2) s = replay es2 (replay es1 s)"
  by (simp add: replay_def)

lemma replay_untouched: "(\<And>e. e \<in> set es \<Longrightarrow> \<not> touches e q) \<Longrightarrow> replay es s q = s q"
proof (induction es arbitrary: s)
  case Nil
  show ?case by (simp add: replay_Nil)
next
  case (Cons e es)
  have "\<not> touches e q" using Cons.prems by simp
  then have "apply_event e s q = s q" by (cases e) auto
  moreover have "replay es (apply_event e s) q = apply_event e s q"
    using Cons.IH Cons.prems by simp
  ultimately show ?case by (simp add: replay_Cons)
qed

lemma read_file_eq_Done:
  "read_file p s = Done s' es c \<longleftrightarrow> s p = Some (File c) \<and> s' = s \<and> es = []"
  by (auto simp: read_file_def split: option.splits node.splits)

lemma read_file_pure: "state_of (read_file p s) = s" "events_of (read_file p s) = []"
  by (simp_all add: read_file_def split: option.splits node.splits)

lemma write_file_eq_Done:
  "write_file p c s = Done s' es u \<longleftrightarrow>
     s p \<noteq> Some Dir \<and> parent_check s p = None \<and> s' = s(p \<mapsto> File c) \<and> es = [Write p c]"
  by (auto simp: write_file_def split: option.splits)

lemma write_file_Failed: "write_file p c s = Failed s' es e \<Longrightarrow> s' = s \<and> es = []"
  by (auto simp: write_file_def split: option.splits if_splits)

lemma mkdir_eq_Done:
  "mkdir p s = Done s' es u \<longleftrightarrow>
     s p = None \<and> parent_check s p = None \<and> s' = s(p \<mapsto> Dir) \<and> es = [Mkdir p]"
  by (auto simp: mkdir_def split: option.splits)

lemma mkdir_Failed: "mkdir p s = Failed s' es e \<Longrightarrow> s' = s \<and> es = []"
  by (auto simp: mkdir_def split: option.splits if_splits)

lemma mkdir_exist_ok_cases:
  "(state_of (mkdir_exist_ok p s) = s \<and> events_of (mkdir_exist_ok p s) = []) \<or>
   (s p = None \<and> mkdir_exist_ok p s = Done (s(p \<mapsto> Dir)) [Mkdir p] ())"
proof (cases "mkdir p s")
  case (Done s' es u)
  then show ?thesis using Done[unfolded mkdir_eq_Done] by (simp add: mkdir_exist_ok_def)
next
  case (Failed s' es e)
  then show ?thesis using mkdir_Failed[OF Failed] by (simp add: mkdir_exist_ok_def)
qed

lemma copy2_eq_Done:
  "copy2 src dst s = Done s' es u \<longleftrightarrow>
     (\<exists>c d. s src = Some (File c) \<and> d = (if isdir s dst then join dst (basename src) else dst) \<and>
        src \<noteq> d \<and> s d \<noteq> Some Dir \<and> parent_check s d = None \<and>
        s' = s(d \<mapsto> File c) \<and> es = [Write d c])"
  by (auto simp: copy2_def Let_def bind_eq_Done read_file_eq_Done write_file_eq_Done exists_def)

lemma copy2_Failed: "copy2 src dst s = Failed s' es e \<Longrightarrow> s' = s \<and> es = []"
  by (auto simp: copy2_def Let_def bind_eq_Failed read_file_eq_Done read_file_def
      dest!: write_file_Failed split: if_splits option.splits node.splits)

lemma hash_file_bytes_eq_Done:
  "hash_file_bytes sha1 p s = Done s' es h \<longleftrightarrow>
     (\<exists>c. s p = Some (File c) \<and> h = hexdigest (sha1 c)) \<and> s' = s \<and> es = []"
  by (auto simp: hash_file_bytes_def bind_eq_Done read_file_eq_Done ret_def)

lemma hash_file_bytes_pure:
  "state_of (hash_file_bytes sha1 p s) = s" "events_of (hash_file_bytes sha1 p s) = []"
  by (simp_all add: hash_file_bytes_def bind_def read_file_def ret_def
      split: option.splits node.splits)

lemma read_index_eq_Done:
  "read_index s = Done s' es index \<longleftrightarrow>
     s' = s \<and> es = [] \<and>
     (if s INDEX_FILE = None then index = Some []
      else s INDEX_FILE = Some (File (IndexJson index)))"
proof (cases "s INDEX_FILE")
  case None
  then show ?thesis by (auto simp: read_index_def exists_def)
next
  case (Some n)
  show ?thesis
  proof (cases n)
    case Dir
    then show ?thesis using Some by (auto simp: read_index_def exists_def bind_def read_file_def)
  next
    case (File c)
    then show ?thesis using Some
      by (cases c) (auto simp: read_index_def exists_def bind_def read_file_def ret_def raise_def)
  qed
qed

lemma read_index_pure: "state_of (read_index s) = s" "events_of (read_index s) = []"
  by (simp_all add: read_index_def exists_def bind_def read_file_def ret_def raise_def
      split: option.splits node.splits content.splits)

lemma ensure_repo_eq_Done:
  "ensure_repo s = Done s' es u \<longleftrightarrow> isdir s MINIGIT_DIR \<and> s' = s \<and> es = []"
  by (auto simp: ensure_repo_def)

lemma ensure_repo_pure: "state_of (ensure_repo s) = s" "events_of (ensure_repo s) = []"
  by (simp_all add: ensure_repo_def)

subsection \<open>The state an outcome carries is the replay of its effects\<close>

lemma sound_bind:
  assumes "state_of (m s) = replay (events_of (m s)) s"
      and "\<And>a s1. state_of (k a s1) = replay (events_of (k a s1)) s1"
  shows "state_of (bind m k s) = replay (events_of (bind m k s)) s"
proof (cases "m s")
  case (Done s1 es1 a)
  then have "s1 = replay es1 s" using assms(1) by simp
  then show ?thesis using assms(2)[of a s1] Done
    by (simp add: bind_def state_of_prepend events_of_prepend replay_append)
next
  case (Failed s1 es1 e)
  then show ?thesis using assms(1) by (simp add: bind_def)
qed

lemma sound_ret: "state_of (ret a s) = replay (events_of (ret a s)) s"
  by (simp add: ret_def replay_Nil)

lemma sound_raise: "state_of (raise e s) = replay (events_of (raise e s)) s"
  by (simp add: raise_def replay_Nil)

lemma sound_print: "state_of (print m s) = replay (events_of (print m s)) s"
  by (simp add: print_def replay_Cons replay_Nil)

lemma sound_read_file: "state_of (read_file p s) = replay (events_of (read_file p s)) s"
  by (simp add: read_file_pure replay_Nil)

lemma sound_write_file:
  "state_of (write_file p c s) = replay (events_of (write_file p c s)) s"
  by (simp add: write_file_def replay_Cons replay_Nil split: option.splits)

lemma sound_copy2: "state_of (copy2 src dst s) = replay (events_of (copy2 src dst s)) s"
  unfolding copy2_def Let_def
  by (simp add: sound_bind sound_read_file sound_write_file replay_Nil)

lemma sound_hash_file_bytes:
  "state_of (hash_file_bytes sha1 p s) = replay (events_of (hash_file_bytes sha1 p s)) s"
  by (simp add: hash_file_bytes_pure replay_Nil)

lemma sound_read_index: "state_of (read_index s) = replay (events_of (read_index s)) s"
  by (simp add: read_index_pure replay_Nil)

lemma sound_ensure_repo: "state_of (ensure_repo s) = replay (events_of (ensure_repo s)) s"
  by (simp add: ensure_repo_pure replay_Nil)

lemma sound_mkdir_exist_ok:
  "state_of (mkdir_exist_ok p s) = replay (events_of (mkdir_exist_ok p s)) s"
  using mkdir_exist_ok_cases[of p s] by (auto simp: replay_Nil replay_Cons)

text \<open>
  \<^verbatim>\<open>os.makedirs\<close> either makes the one directory, or first makes the head and
  then stops or makes the directory.
\<close>

lemma makedirs_shape:
  assumes "split_twice name = (head, tail)"
  shows "(\<not> (head \<noteq> [] \<and> tail \<noteq> [] \<and> \<not> exists s head) \<and> makedirs name s = mkdir_exist_ok name s) \<or>
     (head \<noteq> [] \<and> tail \<noteq> [] \<and> \<not> exists s head \<and>
       ((state_of (makedirs name s) = state_of (makedirs head s) \<and>
         events_of (makedirs name s) = events_of (makedirs head s)) \<or>
        makedirs name s =
          prepend (events_of (makedirs head s)) (mkdir_exist_ok name (state_of (makedirs head s)))))"
proof (cases "head \<noteq> [] \<and> tail \<noteq> [] \<and> \<not> exists s head")
  case False
  then show ?thesis unfolding makedirs.simps[of name s] using assms by auto
next
  case True
  show ?thesis
  proof (cases "makedirs head s")
    case (Done s1 es1 u)
    then show ?thesis unfolding makedirs.simps[of name s] using assms True by simp
  next
    case (Failed s1 es1 e)
    then show ?thesis unfolding makedirs.simps[of name s] using assms True
      by (cases e) simp_all
  qed
qed

lemma makedirs_props:
  "state_of (makedirs name s) = replay (events_of (makedirs name s)) s \<and>
   (\<forall>e \<in> set (events_of (makedirs name s)). \<exists>q. e = Mkdir q \<and> prefix q name \<and> s q = None)"
proof (induction name s rule: makedirs.induct)
  case (1 name s)
  obtain head tail where st: "split_twice name = (head, tail)" by (cases "split_twice name")
  have one: "\<And>t. state_of (mkdir_exist_ok name t) = replay (events_of (mkdir_exist_ok name t)) t \<and>
     (\<forall>e \<in> set (events_of (mkdir_exist_ok name t)). e = Mkdir name \<and> t name = None)"
    subgoal for t using mkdir_exist_ok_cases[of name t] by (auto simp: replay_Nil replay_Cons)
    done
  from makedirs_shape[OF st, of s] show ?case
  proof (elim disjE conjE)
    assume "makedirs name s = mkdir_exist_ok name s"
    then show ?thesis using one[of s] by auto
  next
    assume c: "head \<noteq> []" "tail \<noteq> []" "\<not> exists s head"
    note IH = "1.IH"[OF st[symmetric]] 
    have ih: "state_of (makedirs head s) = replay (events_of (makedirs head s)) s"
      "\<forall>e \<in> set (events_of (makedirs head s)). \<exists>q. e = Mkdir q \<and> prefix q head \<and> s q = None"
      using IH c by auto
    have ph: "prefix head name" using split_twice_prefix[OF st] .
    have ev: "\<forall>e \<in> set (events_of (makedirs head s)). \<exists>q. e = Mkdir q \<and> prefix q name \<and> s q = None"
      using ih(2) ph by (meson prefix_order.trans)
    {
      assume "state_of (makedirs name s) = state_of (makedirs head s)"
        "events_of (makedirs name s) = events_of (makedirs head s)"
      then show ?thesis using ih(1) ev by simp
    next
      assume e: "makedirs name s =
          prepend (events_of (makedirs head s)) (mkdir_exist_ok name (state_of (makedirs head s)))"
      let ?s1 = "state_of (makedirs head s)"
      have mono: "\<And>q. s q \<noteq> None \<Longrightarrow> ?s1 q = s q"
      proof -
        fix q assume "s q \<noteq> None"
        then have "\<And>e. e \<in> set (events_of (makedirs head s)) \<Longrightarrow> \<not> touches e q"
          using ih(2) by fastforce
        then show "?s1 q = s q" unfolding ih(1) by (rule replay_untouched)
      qed
      have "\<forall>e \<in> set (events_of (mkdir_exist_ok name ?s1)). \<exists>q. e = Mkdir q \<and> prefix q name \<and> s q = None"
      proof
        fix e assume "e \<in> set (events_of (mkdir_exist_ok name ?s1))"
        then have e1: "e = Mkdir name" and n1: "?s1 name = None" using one[of ?s1] by auto
        have "s name = None"
        proof (rule ccontr)
          assume "s name \<noteq> None"
          then show False using mono[of name] n1 by simp
        qed
        then show "\<exists>q. e = Mkdir q \<and> prefix q name \<and> s q = None" using e1 by simp
      qed
      then show ?thesis
        unfolding e using one[of ?s1] ih(1) ev
        by (auto simp: state_of_prepend events_of_prepend replay_append)
    }
  qed
qed

lemma sound_makedirs: "state_of (makedirs name s) = replay (events_of (makedirs name s)) s"
  using makedirs_props[of name s] by simp

lemma makedirs_events:
  "e \<in> set (events_of (makedirs name s)) \<Longrightarrow> \<exists>q. e = Mkdir q \<and> prefix q name \<and> s q = None"
  using makedirs_props[of name s] by simp

subsection \<open>The loop of commit\<close>

lemma copy2_fresh:
  assumes "s p = Some (File c)" "s d = None"
  shows "copy2 p d s = write_file d c s"
proof -
  have "\<not> isdir s d" "p \<noteq> d" using assms by (auto simp: isdir_def)
  then show ?thesis using assms(1)
    by (simp add: copy2_def Let_def bind_def read_file_def prepend_Nil)
qed

lemma commit_files_Nil: "commit_files sha1 [] fm s = Done s [] fm"
  by (simp add: ret_def)

lemma commit_files_vanished:
  "s (path e) = None \<Longrightarrow>
   commit_files sha1 (e # st) fm s = prepend [Print (MsgVanished (path e))] (commit_files sha1 st fm s)"
  by (simp add: exists_def bind_def print_def Let_def)

lemma commit_files_dir:
  "s (path e) = Some Dir \<Longrightarrow>
   commit_files sha1 (e # st) fm s = Failed s [] (IsADirectoryError (path e))"
  by (simp add: exists_def bind_def Let_def hash_file_bytes_def read_file_def)

lemma commit_files_present:
  assumes "s (path e) = Some (File c)"
  shows "commit_files sha1 (e # st) fm s =
     (let d = join OBJECTS_DIR (object_name_of (hexdigest (sha1 c)) (path e)) in
      if s d \<noteq> None then commit_files sha1 st (fm @ [meta_of sha1 (path e) c]) s
      else (case parent_check s d of
              Some err \<Rightarrow> Failed s [] err
            | None \<Rightarrow> prepend [Write d c]
                       (commit_files sha1 st (fm @ [meta_of sha1 (path e) c]) (s(d \<mapsto> File c)))))"
proof -
  let ?d = "join OBJECTS_DIR (object_name_of (hexdigest (sha1 c)) (path e))"
  have h: "hash_file_bytes sha1 (path e) s = Done s [] (hexdigest (sha1 c))"
    using assms by (simp add: hash_file_bytes_eq_Done)
  show ?thesis
  proof (cases "s ?d")
    case None
    have nd: "s ?d \<noteq> Some Dir" using None by simp
    have "copy2 (path e) ?d s = write_file ?d c s" using assms None by (rule copy2_fresh)
    then show ?thesis using assms None h nd
      by (simp add: exists_def Let_def bind_Done prepend_Nil meta_of_def bind_def write_file_def
          split: option.splits)
  next
    case (Some n)
    then show ?thesis using assms h
      by (simp add: exists_def Let_def bind_Done prepend_Nil meta_of_def ret_def)
  qed
qed

declare commit_files.simps [simp del]

text \<open>
  What a run of the loop that ends normally has done: files that were there are
  unchanged, everything new lies in the object store, and the entries are those
  of the staged files found, in order.
\<close>

lemma commit_files_Done:
  "commit_files sha1 st fm s = Done s' es fm' \<Longrightarrow>
     (\<forall>q. s q \<noteq> None \<longrightarrow> s' q = s q) \<and>
     (\<forall>q. \<not> in_objects q \<longrightarrow> s' q = s q) \<and>
     (\<forall>ev \<in> set es. (\<exists>p. ev = Print (MsgVanished p)) \<or> (\<exists>q c. ev = Write q c \<and> in_objects q \<and> s q = None)) \<and>
     (\<exists>new. fm' = fm @ new \<and>
        subseq (map fpath new) (map path st) \<and>
        filter (\<lambda>f. exists s (fpath f)) new
          = map (\<lambda>e. meta_of sha1 (path e) (content_at s (path e))) (filter (\<lambda>e. exists s (path e)) st) \<and>
        (\<forall>f \<in> set new. \<exists>c. f = meta_of sha1 (fpath f) c \<and> s' (fpath f) = Some (File c) \<and>
             exists s' (join OBJECTS_DIR (fobject f))))"
proof (induction st arbitrary: fm s es)
  case Nil
  then show ?case by (auto simp: commit_files_Nil)
next
  case (Cons e st)
  show ?case
  proof (cases "s (path e)")
    case None
    from Cons.prems obtain es1 where r: "commit_files sha1 st fm s = Done s' es1 fm'"
      and es: "es = Print (MsgVanished (path e)) # es1"
      by (auto simp: commit_files_vanished[where s = s and e = e, OF None] prepend_eq_Done)
    from Cons.IH[OF r] obtain new where ih:
      "\<forall>q. s q \<noteq> None \<longrightarrow> s' q = s q" "\<forall>q. \<not> in_objects q \<longrightarrow> s' q = s q"
      "\<forall>ev \<in> set es1. (\<exists>p. ev = Print (MsgVanished p)) \<or> (\<exists>q c. ev = Write q c \<and> in_objects q \<and> s q = None)"
      "fm' = fm @ new" "subseq (map fpath new) (map path st)"
      "filter (\<lambda>f. exists s (fpath f)) new
          = map (\<lambda>e. meta_of sha1 (path e) (content_at s (path e))) (filter (\<lambda>e. exists s (path e)) st)"
      "\<forall>f \<in> set new. \<exists>c. f = meta_of sha1 (fpath f) c \<and> s' (fpath f) = Some (File c) \<and>
             exists s' (join OBJECTS_DIR (fobject f))"
      by blast
    have "subseq (map fpath new) (map path (e # st))" using ih(5) by (auto intro: list_emb_Cons)
    then show ?thesis using ih None es by (auto simp: exists_def)
  next
    case (Some n)
    show ?thesis
    proof (cases n)
      case Dir
      then show ?thesis using Cons.prems Some
        by (simp add: commit_files_dir[where s = s and e = e])
    next
      case (File c)
      let ?d = "join OBJECTS_DIR (object_name_of (hexdigest (sha1 c)) (path e))"
      let ?m = "meta_of sha1 (path e) c"
      have pe: "s (path e) = Some (File c)" using Some File by simp
      have dobj: "in_objects ?d" by (rule object_path_in_objects)
      have mf: "fpath ?m = path e" "fobject ?m = object_name_of (hexdigest (sha1 c)) (path e)"
        by (simp_all add: meta_of_def)
      note unf = commit_files_present[where s = s and e = e and c = c, OF pe, of sha1 st fm]
      show ?thesis
      proof (cases "s ?d")
        case (Some nd)
        then have r: "commit_files sha1 st (fm @ [?m]) s = Done s' es fm'"
          using Cons.prems unf by (simp add: Let_def)
        from Cons.IH[OF r] obtain new where ih:
          "\<forall>q. s q \<noteq> None \<longrightarrow> s' q = s q" "\<forall>q. \<not> in_objects q \<longrightarrow> s' q = s q"
          "\<forall>ev \<in> set es. (\<exists>p. ev = Print (MsgVanished p)) \<or> (\<exists>q c. ev = Write q c \<and> in_objects q \<and> s q = None)"
          "fm' = (fm @ [?m]) @ new" "subseq (map fpath new) (map path st)"
          "filter (\<lambda>f. exists s (fpath f)) new
            = map (\<lambda>e. meta_of sha1 (path e) (content_at s (path e))) (filter (\<lambda>e. exists s (path e)) st)"
          "\<forall>f \<in> set new. \<exists>c. f = meta_of sha1 (fpath f) c \<and> s' (fpath f) = Some (File c) \<and>
             exists s' (join OBJECTS_DIR (fobject f))"
          by blast
        have a: "fm' = fm @ (?m # new)" using ih(4) by simp
        have b: "subseq (map fpath (?m # new)) (map path (e # st))" using ih(5) mf by simp
        have c: "filter (\<lambda>f. exists s (fpath f)) (?m # new)
            = map (\<lambda>e. meta_of sha1 (path e) (content_at s (path e))) (filter (\<lambda>e. exists s (path e)) (e # st))"
          using ih(6) pe mf by (simp add: exists_def content_at_def)
        have d: "\<forall>f \<in> set (?m # new). \<exists>c. f = meta_of sha1 (fpath f) c \<and> s' (fpath f) = Some (File c) \<and>
             exists s' (join OBJECTS_DIR (fobject f))"
          using ih(7) ih(1) pe mf Some by (auto simp: exists_def)
        show ?thesis using ih(1,2,3) a b c d by blast
      next
        case None
        then obtain es1 where r: "commit_files sha1 st (fm @ [?m]) (s(?d \<mapsto> File c)) = Done s' es1 fm'"
          and es: "es = Write ?d c # es1"
          using Cons.prems unf by (auto simp: Let_def prepend_eq_Done split: option.splits)
        let ?s1 = "s(?d \<mapsto> File c)"
        from Cons.IH[OF r] obtain new where ih:
          "\<forall>q. ?s1 q \<noteq> None \<longrightarrow> s' q = ?s1 q" "\<forall>q. \<not> in_objects q \<longrightarrow> s' q = ?s1 q"
          "\<forall>ev \<in> set es1. (\<exists>p. ev = Print (MsgVanished p)) \<or> (\<exists>q c. ev = Write q c \<and> in_objects q \<and> ?s1 q = None)"
          "fm' = (fm @ [?m]) @ new" "subseq (map fpath new) (map path st)"
          "filter (\<lambda>f. exists ?s1 (fpath f)) new
            = map (\<lambda>e. meta_of sha1 (path e) (content_at ?s1 (path e))) (filter (\<lambda>e. exists ?s1 (path e)) st)"
          "\<forall>f \<in> set new. \<exists>c. f = meta_of sha1 (fpath f) c \<and> s' (fpath f) = Some (File c) \<and>
             exists s' (join OBJECTS_DIR (fobject f))"
          by blast
        have dne: "?d \<noteq> path e" using None pe by auto
        have m1: "\<forall>q. s q \<noteq> None \<longrightarrow> s' q = s q"
          using ih(1) None by (metis fun_upd_apply)
        have m2: "\<forall>q. \<not> in_objects q \<longrightarrow> s' q = s q"
          using ih(2) dobj by (metis fun_upd_apply)
        have m3: "\<forall>ev \<in> set es. (\<exists>p. ev = Print (MsgVanished p)) \<or> (\<exists>q c. ev = Write q c \<and> in_objects q \<and> s q = None)"
        proof
          fix ev assume "ev \<in> set es"
          then consider "ev = Write ?d c" | "ev \<in> set es1" using es by auto
          then show "(\<exists>p. ev = Print (MsgVanished p)) \<or> (\<exists>q c. ev = Write q c \<and> in_objects q \<and> s q = None)"
          proof cases
            case 1
            then show ?thesis using dobj None by blast
          next
            case 2
            then have "(\<exists>p. ev = Print (MsgVanished p)) \<or> (\<exists>q c. ev = Write q c \<and> in_objects q \<and> ?s1 q = None)"
              using ih(3) by blast
            then show ?thesis by (auto split: if_splits)
          qed
        qed
        have a: "fm' = fm @ (?m # new)" using ih(4) by simp
        have b: "subseq (map fpath (?m # new)) (map path (e # st))" using ih(5) mf by simp
        have f1: "filter (\<lambda>f. exists s (fpath f)) new = filter (\<lambda>f. exists s (fpath f)) (filter (\<lambda>f. exists ?s1 (fpath f)) new)"
          by (auto simp: exists_def intro: filter_cong)
        have f2: "filter (\<lambda>e. exists s (path e)) st = filter (\<lambda>e. exists s (path e)) (filter (\<lambda>e. exists ?s1 (path e)) st)"
          by (auto simp: exists_def intro: filter_cong)
        have f3: "filter (\<lambda>f. exists s (fpath f)) new
            = map (\<lambda>e. meta_of sha1 (path e) (content_at s (path e))) (filter (\<lambda>e. exists s (path e)) st)"
        proof -
          have "filter (\<lambda>f. exists s (fpath f)) new
              = filter (\<lambda>f. exists s (fpath f))
                  (map (\<lambda>e. meta_of sha1 (path e) (content_at ?s1 (path e))) (filter (\<lambda>e. exists ?s1 (path e)) st))"
            using f1 ih(6) by simp
          also have "\<dots> = map (\<lambda>e. meta_of sha1 (path e) (content_at ?s1 (path e)))
                  (filter (\<lambda>e. exists s (path e)) (filter (\<lambda>e. exists ?s1 (path e)) st))"
            by (simp add: filter_map comp_def meta_of_def)
          also have "\<dots> = map (\<lambda>e. meta_of sha1 (path e) (content_at ?s1 (path e))) (filter (\<lambda>e. exists s (path e)) st)"
            using f2 by simp
          also have "\<dots> = map (\<lambda>e. meta_of sha1 (path e) (content_at s (path e))) (filter (\<lambda>e. exists s (path e)) st)"
            using None by (intro map_cong refl) (auto simp: exists_def content_at_def)
          finally show ?thesis .
        qed
        have c: "filter (\<lambda>f. exists s (fpath f)) (?m # new)
            = map (\<lambda>e. meta_of sha1 (path e) (content_at s (path e))) (filter (\<lambda>e. exists s (path e)) (e # st))"
          using f3 pe mf by (simp add: exists_def content_at_def)
        have sd: "s' ?d = Some (File c)" using ih(1) by simp
        have sp: "s' (path e) = Some (File c)" using m1 pe by simp
        have d: "\<forall>f \<in> set (?m # new). \<exists>c. f = meta_of sha1 (fpath f) c \<and> s' (fpath f) = Some (File c) \<and>
             exists s' (join OBJECTS_DIR (fobject f))"
          using ih(7) sd sp mf by (auto simp: exists_def)
        show ?thesis using m1 m2 m3 a b c d by blast
      qed
    qed
  qed
qed

subsection \<open>The commit command\<close>

lemma cmd_commit_empty:
  assumes "isdir s MINIGIT_DIR" "read_index s = Done s [] index" "get_staged index = []"
  shows "cmd_commit sha1 uuid4 now msg_text s = Done s [Print MsgNothingToCommit] ()"
proof -
  have e: "ensure_repo s = Done s [] ()" using assms(1) by (simp add: ensure_repo_def)
  show ?thesis
    unfolding cmd_commit_def
    by (simp add: bind_Done[where m = ensure_repo and s = s, OF e] bind_Done[where m = read_index and s = s, OF assms(2)] prepend_Nil assms(3) print_def)
qed

lemma cmd_commit_nonempty:
  assumes "isdir s MINIGIT_DIR" "read_index s = Done s [] index" "get_staged index \<noteq> []"
  shows "cmd_commit sha1 uuid4 now msg_text s =
     bind (commit_files sha1 (get_staged index) []) (\<lambda>fm.
       bind (write_file (commit_file_of (take 12 (uuid_hex uuid4)))
               (CommitJson (commit_record uuid4 now msg_text fm))) (\<lambda>u.
       bind (write_index (Some [])) (\<lambda>u.
       print (MsgCommitCreated (take 12 (uuid_hex uuid4)) (length fm))))) s"
proof -
  have e: "ensure_repo s = Done s [] ()" using assms(1) by (simp add: ensure_repo_def)
  show ?thesis
    unfolding cmd_commit_def
    by (simp add: bind_Done[where m = ensure_repo and s = s, OF e] bind_Done[where m = read_index and s = s, OF assms(2)] prepend_Nil assms(3) Let_def
        commit_record_def)
qed

lemma cmd_commit_Done:
  assumes "cmd_commit sha1 uuid4 now msg_text s = Done s' es r"
      and "read_index s = Done s [] index" and "get_staged index \<noteq> []"
  shows "\<exists>s1 es1 fm.
     commit_files sha1 (get_staged index) [] s = Done s1 es1 fm \<and>
     s1 (commit_file_of (take 12 (uuid_hex uuid4))) \<noteq> Some Dir \<and>
     s' = s1(commit_file_of (take 12 (uuid_hex uuid4)) \<mapsto> File (CommitJson (commit_record uuid4 now msg_text fm)),
             INDEX_FILE \<mapsto> File (IndexJson (Some []))) \<and>
     es = es1 @ [Write (commit_file_of (take 12 (uuid_hex uuid4))) (CommitJson (commit_record uuid4 now msg_text fm)),
                 Write INDEX_FILE (IndexJson (Some [])),
                 Print (MsgCommitCreated (take 12 (uuid_hex uuid4)) (length fm))]"
proof -
  have d: "isdir s MINIGIT_DIR"
    using assms(1) unfolding cmd_commit_def by (auto simp: bind_eq_Done ensure_repo_eq_Done)
  show ?thesis
    using assms(1) unfolding cmd_commit_nonempty[OF d assms(2,3)]
    by (auto simp: bind_eq_Done write_file_eq_Done write_index_def print_def)
qed



subsection \<open>Properties of commit\<close>

lemma outcome_unit_collapse:
  fixes r :: "unit outcome"
  shows "is_Done r \<Longrightarrow> r = Done (state_of r) (events_of r) ()"
  by (cases r) simp_all

lemma staged_of_nonempty:
  assumes "staged_of s \<noteq> []"
  shows "\<exists>index. read_index s = Done s [] index \<and> get_staged index = staged_of s \<and>
           s INDEX_FILE = Some (File (IndexJson index))"
proof -
  obtain s1 es1 index where r: "read_index s = Done s1 es1 index" and g: "get_staged index = staged_of s"
    using assms by (auto simp: staged_of_def split: outcome.splits)
  have e: "s1 = s" "es1 = []" using r by (simp_all add: read_index_eq_Done)
  have "s INDEX_FILE \<noteq> None"
  proof
    assume "s INDEX_FILE = None"
    then have "index = Some []" using r by (simp add: read_index_eq_Done)
    then show False using g assms by (simp add: get_staged_def)
  qed
  then have "s INDEX_FILE = Some (File (IndexJson index))" using r by (simp add: read_index_eq_Done)
  then show ?thesis using r g e by blast
qed

text \<open>
  Claim C2 (empty commit guard). In every repository state whose staging index is
  empty, \<^verbatim>\<open>commit\<close> prints the nothing-to-commit notice and does nothing
  else: the outcome carries the state it was given and no write among its
  effects, so no commit record and no object is created and the commit log, the
  object store and the index are unchanged.
\<close>

theorem empty_commit_guard:
  assumes "isdir s MINIGIT_DIR" and "staging_is_empty s"
  shows "cmd_commit sha1 uuid4 now msg_text s = Done s [Print MsgNothingToCommit] ()"
proof -
  obtain s1 es1 index where r: "read_index s = Done s1 es1 index" and g: "get_staged index = []"
    using assms(2) by (auto simp: staging_is_empty_def split: outcome.splits)
  have "s1 = s" "es1 = []" using r by (simp_all add: read_index_eq_Done)
  then show ?thesis using cmd_commit_empty[OF assms(1) _ g] r by simp
qed

theorem empty_commit_guard_witness:
  "isdir example_repo MINIGIT_DIR \<and> staging_is_empty example_repo \<and>
   cmd_commit example_digest 171 ''2025-01-01T00:00:00'' ''first'' example_repo
     = Done example_repo [Print MsgNothingToCommit] ()"
proof -
  have a: "isdir example_repo MINIGIT_DIR" by code_simp
  have b: "staging_is_empty example_repo" by code_simp
  show ?thesis using empty_commit_guard[OF a b] a b by simp
qed

text \<open>
  Claim C5 (commit re-fingerprints from disk). After a commit of a non-empty
  index, the record stored under the new id lists, for the staged paths that
  existed when the commit began and in staging order, the entry built from the
  bytes then on disk: the digest of those bytes (whatever digest the index held)
  and the object name made of that digest and the base name. The paths of all
  recorded entries follow the staging order, and the object of every recorded
  entry is in the store after the commit.
\<close>

theorem commit_refingerprints_from_disk:
  assumes "cmd_commit sha1 uuid4 now msg_text s = Done s' es ()" and "staged_of s \<noteq> []"
  shows "\<exists>fm. s' (commit_file_of (take 12 (uuid_hex uuid4)))
                = Some (File (CommitJson (commit_record uuid4 now msg_text fm))) \<and>
           filter (\<lambda>f. exists s (fpath f)) fm
             = map (\<lambda>e. meta_of sha1 (path e) (content_at s (path e)))
                 (filter (\<lambda>e. exists s (path e)) (staged_of s)) \<and>
           subseq (map fpath fm) (map path (staged_of s)) \<and>
           (\<forall>f \<in> set fm. fobject f = object_name_of (fsha f) (fpath f) \<and>
                          exists s' (join OBJECTS_DIR (fobject f)))"
proof -
  obtain index where r: "read_index s = Done s [] index" and g: "get_staged index = staged_of s"
    using staged_of_nonempty[OF assms(2)] by blast
  have ne: "get_staged index \<noteq> []" using g assms(2) by simp
  let ?cf = "commit_file_of (take 12 (uuid_hex uuid4))"
  from cmd_commit_Done[OF assms(1) r ne] obtain s1 es1 fm where
    l: "commit_files sha1 (get_staged index) [] s = Done s1 es1 fm" and
    s': "s' = s1(?cf \<mapsto> File (CommitJson (commit_record uuid4 now msg_text fm)),
                 INDEX_FILE \<mapsto> File (IndexJson (Some [])))"
    by blast
  from commit_files_Done[OF l] obtain new where n:
    "fm = [] @ new" "subseq (map fpath new) (map path (get_staged index))"
    "filter (\<lambda>f. exists s (fpath f)) new
       = map (\<lambda>e. meta_of sha1 (path e) (content_at s (path e))) (filter (\<lambda>e. exists s (path e)) (get_staged index))"
    "\<forall>f \<in> set new. \<exists>c. f = meta_of sha1 (fpath f) c \<and> s1 (fpath f) = Some (File c) \<and>
        exists s1 (join OBJECTS_DIR (fobject f))"
    by blast
  have fm: "fm = new" using n(1) by simp
  have a: "s' ?cf = Some (File (CommitJson (commit_record uuid4 now msg_text fm)))"
    unfolding s' using commit_file_neq_INDEX[of "take 12 (uuid_hex uuid4)"] by simp
  have d: "\<forall>f \<in> set fm. fobject f = object_name_of (fsha f) (fpath f) \<and>
                          exists s' (join OBJECTS_DIR (fobject f))"
  proof
    fix f assume "f \<in> set fm"
    then obtain c where f: "f = meta_of sha1 (fpath f) c" and e: "exists s1 (join OBJECTS_DIR (fobject f))"
      using n(4) fm by blast
    have o: "fobject f = object_name_of (hexdigest (sha1 c)) (fpath f)" "fsha f = hexdigest (sha1 c)"
      by (subst f, simp add: meta_of_def)+
    have "in_objects (join OBJECTS_DIR (fobject f))" unfolding o(1) by (rule object_path_in_objects)
    then have "join OBJECTS_DIR (fobject f) \<noteq> ?cf" "join OBJECTS_DIR (fobject f) \<noteq> INDEX_FILE"
      using commit_file_not_in_objects INDEX_not_in_objects by metis+
    then have "exists s' (join OBJECTS_DIR (fobject f))" using e unfolding s' by (simp add: exists_def)
    then show "fobject f = object_name_of (fsha f) (fpath f) \<and> exists s' (join OBJECTS_DIR (fobject f))"
      using o by simp
  qed
  show ?thesis using a n(2,3) d fm g by auto
qed

text \<open>
  Example: \<^verbatim>\<open>a.txt\<close> is staged holding \<^verbatim>\<open>hello\<close> (digest \<^verbatim>\<open>...05\<close>), then edited
  to \<^verbatim>\<open>hello world\<close>, then committed: the record carries the digest \<^verbatim>\<open>...0b\<close>.
\<close>

definition ex_staged :: fs where
  "ex_staged = state_of (cmd_add example_digest ''a.txt'' example_repo)"

definition ex_edited :: fs where
  "ex_edited = ex_staged(''a.txt'' \<mapsto> File (Raw ''hello world''))"

definition ex_commit :: "unit outcome" where
  "ex_commit = cmd_commit example_digest 171 ''2025-01-01T00:00:00'' ''first'' ex_edited"

theorem commit_refingerprints_from_disk_witness:
  "ex_commit = Done (state_of ex_commit) (events_of ex_commit) () \<and>
   staged_of ex_edited = [\<lparr>path = ''a.txt'', sha = ''0000000000000000000000000000000000000005''\<rparr>] \<and>
   (\<exists>fm. state_of ex_commit (commit_file_of (take 12 (uuid_hex 171)))
             = Some (File (CommitJson (commit_record 171 ''2025-01-01T00:00:00'' ''first'' fm))) \<and>
          filter (\<lambda>f. exists ex_edited (fpath f)) fm
            = [\<lparr>fpath = ''a.txt'', fobject = ''000000000000000000000000000000000000000b_a.txt'',
                fsha = ''000000000000000000000000000000000000000b''\<rparr>])"
proof -
  have a: "ex_commit = Done (state_of ex_commit) (events_of ex_commit) ()"
    by (rule outcome_unit_collapse) code_simp
  have b: "staged_of ex_edited = [\<lparr>path = ''a.txt'', sha = ''0000000000000000000000000000000000000005''\<rparr>]"
    by code_simp
  have c: "staged_of ex_edited \<noteq> []" unfolding b by simp
  have e: "map (\<lambda>e. meta_of example_digest (path e) (content_at ex_edited (path e)))
                 (filter (\<lambda>e. exists ex_edited (path e)) (staged_of ex_edited))
        = [\<lparr>fpath = ''a.txt'', fobject = ''000000000000000000000000000000000000000b_a.txt'',
                fsha = ''000000000000000000000000000000000000000b''\<rparr>]"
    by code_simp
  show ?thesis
    using commit_refingerprints_from_disk[OF a[unfolded ex_commit_def] c] a b
    unfolding e ex_commit_def by blast
qed

lemma sound_commit_files:
  "state_of (commit_files sha1 st fm s) = replay (events_of (commit_files sha1 st fm s)) s"
proof (induction st arbitrary: fm s)
  case Nil
  show ?case by (simp add: commit_files_Nil replay_Nil)
next
  case (Cons e st)
  show ?case
  proof (cases "s (path e)")
    case None
    show ?thesis
      unfolding commit_files_vanished[where s = s and e = e, OF None]
      using Cons.IH[of fm s]
      by (simp add: state_of_prepend events_of_prepend replay_Cons)
  next
    case (Some n)
    show ?thesis
    proof (cases n)
      case Dir
      then show ?thesis using Some
        by (simp add: commit_files_dir[where s = s and e = e] replay_Nil)
    next
      case (File c)
      have pe: "s (path e) = Some (File c)" using Some File by simp
      let ?d = "join OBJECTS_DIR (object_name_of (hexdigest (sha1 c)) (path e))"
      let ?m = "meta_of sha1 (path e) c"
      note unf = commit_files_present[where s = s and e = e and c = c, OF pe, of sha1 st fm]
      show ?thesis
      proof (cases "s ?d")
        case (Some nd)
        then have "commit_files sha1 (e # st) fm s = commit_files sha1 st (fm @ [?m]) s"
          using unf by (simp add: Let_def)
        then show ?thesis using Cons.IH[of "fm @ [?m]" s] by simp
      next
        case None
        show ?thesis
        proof (cases "parent_check s ?d")
          case (Some err)
          then have "commit_files sha1 (e # st) fm s = Failed s [] err"
            using unf None by (simp add: Let_def)
          then show ?thesis by (simp add: replay_Nil)
        next
          case pn: None
          have u: "commit_files sha1 (e # st) fm s
              = prepend [Write ?d c] (commit_files sha1 st (fm @ [?m]) (s(?d \<mapsto> File c)))"
            using unf None pn by (simp add: Let_def)
          have a: "apply_event (Write ?d c) s = s(?d \<mapsto> File c)" by simp
          show ?thesis
            unfolding u state_of_prepend events_of_prepend append_Cons append_Nil replay_Cons a
            by (rule Cons.IH)
        qed
      qed
    qed
  qed
qed


lemma staging_is_empty_iff:
  "staging_is_empty t \<longleftrightarrow>
     t INDEX_FILE = None \<or> (\<exists>index. t INDEX_FILE = Some (File (IndexJson index)) \<and> get_staged index = [])"
proof (cases "read_index t")
  case (Done s1 es1 index)
  then show ?thesis using Done[unfolded read_index_eq_Done]
    by (auto simp: staging_is_empty_def get_staged_def split: if_splits)
next
  case (Failed s1 es1 e)
  have "t INDEX_FILE \<noteq> None"
  proof
    assume "t INDEX_FILE = None"
    then have "read_index t = Done t [] (Some [])" by (simp add: read_index_eq_Done)
    then show False using Failed by simp
  qed
  moreover have "\<not> (\<exists>index. t INDEX_FILE = Some (File (IndexJson index)))"
  proof
    assume "\<exists>index. t INDEX_FILE = Some (File (IndexJson index))"
    then obtain index where "read_index t = Done t [] index" by (auto simp: read_index_eq_Done)
    then show False using Failed by simp
  qed
  ultimately show ?thesis using Failed by (auto simp: staging_is_empty_def)
qed







text \<open>
  Claim C8 (no silent overwrite of a colliding commit id). The claim does not
  hold of the program: \<^verbatim>\<open>cmd_commit\<close> opens the file of the generated id for
  writing without looking for an existing record. In the example, \<^verbatim>\<open>a.txt\<close> is
  committed, \<^verbatim>\<open>b.txt\<close> is staged, and the second commit draws the same id: it
  succeeds, prints nothing but the usual message, and the first record is gone.
\<close>

definition ex_first_commit :: fs where
  "ex_first_commit =
     state_of (cmd_commit example_digest 171 ''2025-01-01T00:00:00'' ''first'' ex_staged)"

definition ex_second_commit :: "unit outcome" where
  "ex_second_commit =
     cmd_commit example_digest 171 ''2025-02-02T00:00:00'' ''second''
       (state_of (cmd_add example_digest ''b.txt'' ex_first_commit))"

theorem commit_id_collision_counterexample:
  "ex_first_commit (commit_file_of (take 12 (uuid_hex 171)))
     = Some (File (CommitJson (commit_record 171 ''2025-01-01T00:00:00'' ''first''
         [\<lparr>fpath = ''a.txt'', fobject = ''0000000000000000000000000000000000000005_a.txt'',
           fsha = ''0000000000000000000000000000000000000005''\<rparr>]))) \<and>
   is_Done ex_second_commit \<and>
   events_of ex_second_commit
     = [Write ''.minigit/objects/0000000000000000000000000000000000000007_b.txt'' (Raw ''goodbye''),
        Write (commit_file_of (take 12 (uuid_hex 171)))
          (CommitJson (commit_record 171 ''2025-02-02T00:00:00'' ''second''
             [\<lparr>fpath = ''b.txt'', fobject = ''0000000000000000000000000000000000000007_b.txt'',
               fsha = ''0000000000000000000000000000000000000007''\<rparr>])),
        Write INDEX_FILE (IndexJson (Some [])),
        Print (MsgCommitCreated (take 12 (uuid_hex 171)) 1)] \<and>
   state_of ex_second_commit (commit_file_of (take 12 (uuid_hex 171)))
     \<noteq> ex_first_commit (commit_file_of (take 12 (uuid_hex 171)))"
  by code_simp

text \<open>
  Claim C8, as amended: a commit stores its record in the file of the generated
  id, whatever was there, and leaves the record of every other id as it was.
\<close>

theorem commit_writes_record_of_generated_id:
  assumes "cmd_commit sha1 uuid4 now msg_text s = Done s' es ()" and "staged_of s \<noteq> []"
  shows "(\<exists>fm. s' (commit_file_of (take 12 (uuid_hex uuid4)))
                 = Some (File (CommitJson (commit_record uuid4 now msg_text fm)))) \<and>
         (\<forall>i. i \<noteq> take 12 (uuid_hex uuid4) \<longrightarrow> s' (commit_file_of i) = s (commit_file_of i))"
proof -
  obtain index where r: "read_index s = Done s [] index" and g: "get_staged index = staged_of s"
    using staged_of_nonempty[OF assms(2)] by blast
  have ne: "get_staged index \<noteq> []" using g assms(2) by simp
  let ?cf = "commit_file_of (take 12 (uuid_hex uuid4))"
  from cmd_commit_Done[OF assms(1) r ne] obtain s1 es1 fm where
    l: "commit_files sha1 (get_staged index) [] s = Done s1 es1 fm" and
    s': "s' = s1(?cf \<mapsto> File (CommitJson (commit_record uuid4 now msg_text fm)),
                 INDEX_FILE \<mapsto> File (IndexJson (Some [])))"
    by blast
  have fr: "\<forall>q. \<not> in_objects q \<longrightarrow> s1 q = s q" using commit_files_Done[OF l] by blast
  have a: "s' ?cf = Some (File (CommitJson (commit_record uuid4 now msg_text fm)))"
    unfolding s' using commit_file_neq_INDEX[of "take 12 (uuid_hex uuid4)"] by simp
  have b: "s' (commit_file_of i) = s (commit_file_of i)" if "i \<noteq> take 12 (uuid_hex uuid4)" for i
  proof -
    have "commit_file_of i \<noteq> ?cf" using that commit_file_inj by blast
    then have "s' (commit_file_of i) = s1 (commit_file_of i)"
      unfolding s' using commit_file_neq_INDEX[of i] by simp
    then show ?thesis using fr commit_file_not_in_objects[of i] by simp
  qed
  show ?thesis using a b by blast
qed

theorem commit_writes_record_of_generated_id_witness:
  "ex_second_commit = Done (state_of ex_second_commit) (events_of ex_second_commit) () \<and>
   staged_of (state_of (cmd_add example_digest ''b.txt'' ex_first_commit))
     = [\<lparr>path = ''b.txt'', sha = ''0000000000000000000000000000000000000007''\<rparr>] \<and>
   (\<exists>fm. state_of ex_second_commit (commit_file_of (take 12 (uuid_hex 171)))
            = Some (File (CommitJson (commit_record 171 ''2025-02-02T00:00:00'' ''second'' fm)))) \<and>
   state_of ex_second_commit (commit_file_of ''0123456789ab'')
     = state_of (cmd_add example_digest ''b.txt'' ex_first_commit) (commit_file_of ''0123456789ab'')"
proof -
  have a: "ex_second_commit = Done (state_of ex_second_commit) (events_of ex_second_commit) ()"
    by (rule outcome_unit_collapse) code_simp
  have b: "staged_of (state_of (cmd_add example_digest ''b.txt'' ex_first_commit))
     = [\<lparr>path = ''b.txt'', sha = ''0000000000000000000000000000000000000007''\<rparr>]"
    by code_simp
  have b': "staged_of (state_of (cmd_add example_digest ''b.txt'' ex_first_commit)) \<noteq> []"
    unfolding b by simp
  have c: "''0123456789ab'' \<noteq> take 12 (uuid_hex 171)" by code_simp
  show ?thesis
    using commit_writes_record_of_generated_id[OF a[unfolded ex_second_commit_def] b',
        folded ex_second_commit_def] a b c
    by blast
qed

text \<open>
  Claim C9 (clear-after-persist ordering). The effects of a successful commit
  of a non-empty index end with the write of the commit record, then the write
  of the empty index, then the message; no effect before them writes the index.
  The final state is the replay of the effects, and in no state reached along
  the way (the replay of a prefix of the effects) is the index empty without the
  record being in place.
\<close>

theorem clear_after_persist:
  assumes "cmd_commit sha1 uuid4 now msg_text s = Done s' es ()" and "staged_of s \<noteq> []"
  shows "\<exists>es0 fm.
           es = es0 @ [Write (commit_file_of (take 12 (uuid_hex uuid4)))
                         (CommitJson (commit_record uuid4 now msg_text fm)),
                       Write INDEX_FILE (IndexJson (Some [])),
                       Print (MsgCommitCreated (take 12 (uuid_hex uuid4)) (length fm))] \<and>
           (\<forall>ev \<in> set es0. \<not> touches ev INDEX_FILE) \<and>
           s' = replay es s \<and>
           (\<forall>n \<le> length es. staging_is_empty (replay (take n es) s) \<longrightarrow>
              replay (take n es) s (commit_file_of (take 12 (uuid_hex uuid4)))
                = Some (File (CommitJson (commit_record uuid4 now msg_text fm))))"
proof -
  obtain index where r: "read_index s = Done s [] index" and g: "get_staged index = staged_of s"
    and ix: "s INDEX_FILE = Some (File (IndexJson index))"
    using staged_of_nonempty[OF assms(2)] by blast
  have ne: "get_staged index \<noteq> []" using g assms(2) by simp
  let ?cf = "commit_file_of (take 12 (uuid_hex uuid4))"
  from cmd_commit_Done[OF assms(1) r ne] obtain s1 es1 fm where
    l: "commit_files sha1 (get_staged index) [] s = Done s1 es1 fm" and
    s': "s' = s1(?cf \<mapsto> File (CommitJson (commit_record uuid4 now msg_text fm)),
                 INDEX_FILE \<mapsto> File (IndexJson (Some [])))" and
    es: "es = es1 @ [Write ?cf (CommitJson (commit_record uuid4 now msg_text fm)),
                 Write INDEX_FILE (IndexJson (Some [])),
                 Print (MsgCommitCreated (take 12 (uuid_hex uuid4)) (length fm))]"
    by blast
  let ?W = "Write ?cf (CommitJson (commit_record uuid4 now msg_text fm))"
  let ?I = "Write INDEX_FILE (IndexJson (Some []))"
  let ?P = "Print (MsgCommitCreated (take 12 (uuid_hex uuid4)) (length fm))"
  have ev: "\<forall>ev \<in> set es1. (\<exists>p. ev = Print (MsgVanished p)) \<or> (\<exists>q c. ev = Write q c \<and> in_objects q \<and> s q = None)"
    using commit_files_Done[OF l] by blast
  have nt: "\<forall>ev \<in> set es1. \<not> touches ev INDEX_FILE"
    using ev INDEX_not_in_objects by fastforce
  have s1: "s1 = replay es1 s" using sound_commit_files[of sha1 "get_staged index" "[]" s] l by simp
  have rp: "s' = replay es s"
    unfolding s' es s1 by (simp add: replay_append replay_Cons replay_Nil)
  have ne_idx: "\<not> staging_is_empty t" if "t INDEX_FILE = s INDEX_FILE" for t
    using that ix ne by (simp add: staging_is_empty_iff)
  have mid: "replay (take n es) s ?cf = Some (File (CommitJson (commit_record uuid4 now msg_text fm)))"
    if n: "n \<le> length es" and em: "staging_is_empty (replay (take n es) s)" for n
  proof -
    consider "n \<le> length es1" | "n = length es1 + 1" | "n = length es1 + 2" | "n = length es1 + 3"
      using n es by force
    then show ?thesis
    proof cases
      case 1
      then have t: "take n es = take n es1" unfolding es by simp
      have "\<And>e. e \<in> set (take n es1) \<Longrightarrow> \<not> touches e INDEX_FILE"
        using nt by (meson in_set_takeD)
      then have "replay (take n es1) s INDEX_FILE = s INDEX_FILE" by (rule replay_untouched)
      then show ?thesis using ne_idx em t by simp
    next
      case 2
      then have t: "take n es = es1 @ [?W]" unfolding es by simp
      have "\<And>e. e \<in> set (es1 @ [?W]) \<Longrightarrow> \<not> touches e INDEX_FILE"
        using nt commit_file_neq_INDEX[of "take 12 (uuid_hex uuid4)"] by auto
      then have "replay (es1 @ [?W]) s INDEX_FILE = s INDEX_FILE" by (rule replay_untouched)
      then show ?thesis using ne_idx em t by simp
    next
      case 3
      then have t: "take n es = es1 @ [?W, ?I]" unfolding es by simp
      show ?thesis unfolding t
        using commit_file_neq_INDEX[of "take 12 (uuid_hex uuid4)"]
        by (simp add: replay_append replay_Cons replay_Nil)
    next
      case 4
      then have t: "take n es = es1 @ [?W, ?I, ?P]" unfolding es by simp
      show ?thesis unfolding t
        using commit_file_neq_INDEX[of "take 12 (uuid_hex uuid4)"]
        by (simp add: replay_append replay_Cons replay_Nil)
    qed
  qed
  show ?thesis using es nt rp mid by blast
qed

theorem clear_after_persist_witness:
  "ex_commit = Done (state_of ex_commit) (events_of ex_commit) () \<and>
   staged_of ex_edited = [\<lparr>path = ''a.txt'', sha = ''0000000000000000000000000000000000000005''\<rparr>] \<and>
   events_of ex_commit
     = [Write ''.minigit/objects/000000000000000000000000000000000000000b_a.txt'' (Raw ''hello world''),
        Write (commit_file_of (take 12 (uuid_hex 171)))
          (CommitJson (commit_record 171 ''2025-01-01T00:00:00'' ''first''
             [\<lparr>fpath = ''a.txt'', fobject = ''000000000000000000000000000000000000000b_a.txt'',
               fsha = ''000000000000000000000000000000000000000b''\<rparr>])),
        Write INDEX_FILE (IndexJson (Some [])),
        Print (MsgCommitCreated (take 12 (uuid_hex 171)) 1)] \<and>
   state_of ex_commit = replay (events_of ex_commit) ex_edited \<and>
   \<not> staging_is_empty (replay (take 1 (events_of ex_commit)) ex_edited) \<and>
   \<not> staging_is_empty (replay (take 2 (events_of ex_commit)) ex_edited) \<and>
   staging_is_empty (replay (take 3 (events_of ex_commit)) ex_edited) \<and>
   replay (take 3 (events_of ex_commit)) ex_edited (commit_file_of (take 12 (uuid_hex 171)))
     = Some (File (CommitJson (commit_record 171 ''2025-01-01T00:00:00'' ''first''
             [\<lparr>fpath = ''a.txt'', fobject = ''000000000000000000000000000000000000000b_a.txt'',
               fsha = ''000000000000000000000000000000000000000b''\<rparr>])))"
proof -
  have a: "ex_commit = Done (state_of ex_commit) (events_of ex_commit) ()"
    by (rule outcome_unit_collapse) code_simp
  have b: "staged_of ex_edited = [\<lparr>path = ''a.txt'', sha = ''0000000000000000000000000000000000000005''\<rparr>]"
    by code_simp
  have b': "staged_of ex_edited \<noteq> []" unfolding b by simp
  have c: "events_of ex_commit
     = [Write ''.minigit/objects/000000000000000000000000000000000000000b_a.txt'' (Raw ''hello world''),
        Write (commit_file_of (take 12 (uuid_hex 171)))
          (CommitJson (commit_record 171 ''2025-01-01T00:00:00'' ''first''
             [\<lparr>fpath = ''a.txt'', fobject = ''000000000000000000000000000000000000000b_a.txt'',
               fsha = ''000000000000000000000000000000000000000b''\<rparr>])),
        Write INDEX_FILE (IndexJson (Some [])),
        Print (MsgCommitCreated (take 12 (uuid_hex 171)) 1)]"
    by code_simp
  have d: "\<not> staging_is_empty (replay (take 1 (events_of ex_commit)) ex_edited)"
    "\<not> staging_is_empty (replay (take 2 (events_of ex_commit)) ex_edited)"
    "staging_is_empty (replay (take 3 (events_of ex_commit)) ex_edited)"
    unfolding c by code_simp+
  from clear_after_persist[OF a[unfolded ex_commit_def] b', folded ex_commit_def]
  obtain es0 fm where t:
    "events_of ex_commit = es0 @ [Write (commit_file_of (take 12 (uuid_hex 171)))
                         (CommitJson (commit_record 171 ''2025-01-01T00:00:00'' ''first'' fm)),
                       Write INDEX_FILE (IndexJson (Some [])),
                       Print (MsgCommitCreated (take 12 (uuid_hex 171)) (length fm))]"
    "state_of ex_commit = replay (events_of ex_commit) ex_edited"
    "\<forall>n \<le> length (events_of ex_commit). staging_is_empty (replay (take n (events_of ex_commit)) ex_edited) \<longrightarrow>
              replay (take n (events_of ex_commit)) ex_edited (commit_file_of (take 12 (uuid_hex 171)))
                = Some (File (CommitJson (commit_record 171 ''2025-01-01T00:00:00'' ''first'' fm)))"
    by blast
  have fm: "fm = [\<lparr>fpath = ''a.txt'', fobject = ''000000000000000000000000000000000000000b_a.txt'',
               fsha = ''000000000000000000000000000000000000000b''\<rparr>]"
    using t(1) unfolding c by (simp add: commit_record_def)
  have "3 \<le> length (events_of ex_commit)" unfolding c by simp
  then have e: "replay (take 3 (events_of ex_commit)) ex_edited (commit_file_of (take 12 (uuid_hex 171)))
     = Some (File (CommitJson (commit_record 171 ''2025-01-01T00:00:00'' ''first'' fm)))"
    using t(3) d(3) by blast
  show ?thesis using a b c t(2) d e unfolding fm by blast
qed

subsection \<open>Properties of staging\<close>

lemma cmd_add_Done:
  assumes "cmd_add sha1 file s = Done s' es r"
  shows "\<exists>index c. isdir s MINIGIT_DIR \<and> exists_spelling s file \<and>
           read_index s = Done s [] index \<and>
           s (normpath file) = Some (File c) \<and>
           s' = s(INDEX_FILE \<mapsto> File (IndexJson (Some
                  (filter (\<lambda>e. path e \<noteq> normpath file) (get_staged index)
                     @ [\<lparr>path = normpath file, sha = hexdigest (sha1 c)\<rparr>])))) \<and>
           es = [Write INDEX_FILE (IndexJson (Some
                  (filter (\<lambda>e. path e \<noteq> normpath file) (get_staged index)
                     @ [\<lparr>path = normpath file, sha = hexdigest (sha1 c)\<rparr>]))),
                 Print (MsgAdded (normpath file))]"
proof -
  from assms obtain t where e: "isdir s MINIGIT_DIR" and
    k: "(if \<not> exists_spelling s file then raise (ArgFileNotFound file) s
         else
           (let rel_path = normpath file in
            bind read_index (\<lambda>index.
              let staged = filter (\<lambda>e. path e \<noteq> rel_path) (get_staged index) in
              bind (hash_file_bytes sha1 rel_path) (\<lambda>sha_hex.
              bind (write_index (Some (staged @ [\<lparr>path = rel_path, sha = sha_hex\<rparr>]))) (\<lambda>u.
              print (MsgAdded rel_path))))) s) = Done s' es r"
    unfolding cmd_add_def by (auto simp: bind_eq_Done ensure_repo_eq_Done)
  have x: "exists_spelling s file" using k by (auto simp: raise_def split: if_splits)
  from k x obtain index es2 where ri: "read_index s = Done s [] index" and
    k2: "bind (hash_file_bytes sha1 (normpath file)) (\<lambda>sha_hex.
              bind (write_index (Some (filter (\<lambda>e. path e \<noteq> normpath file) (get_staged index)
                      @ [\<lparr>path = normpath file, sha = sha_hex\<rparr>]))) (\<lambda>u.
              print (MsgAdded (normpath file)))) s = Done s' es r"
    by (auto simp: Let_def bind_eq_Done read_index_eq_Done)
  from k2 obtain c where c: "s (normpath file) = Some (File c)" and
    k3: "bind (write_index (Some (filter (\<lambda>e. path e \<noteq> normpath file) (get_staged index)
                      @ [\<lparr>path = normpath file, sha = hexdigest (sha1 c)\<rparr>]))) (\<lambda>u.
              print (MsgAdded (normpath file))) s = Done s' es r"
    by (auto simp: bind_eq_Done hash_file_bytes_eq_Done)
  from k3 have "s' = s(INDEX_FILE \<mapsto> File (IndexJson (Some
                  (filter (\<lambda>e. path e \<noteq> normpath file) (get_staged index)
                     @ [\<lparr>path = normpath file, sha = hexdigest (sha1 c)\<rparr>])))) \<and>
           es = [Write INDEX_FILE (IndexJson (Some
                  (filter (\<lambda>e. path e \<noteq> normpath file) (get_staged index)
                     @ [\<lparr>path = normpath file, sha = hexdigest (sha1 c)\<rparr>]))),
                 Print (MsgAdded (normpath file))]"
    by (auto simp: bind_eq_Done write_index_def write_file_eq_Done print_def)
  then show ?thesis using e x ri c by blast
qed

lemma bind_pure_Failed:
  assumes "state_of (m s) = s" "events_of (m s) = []" "bind m k s = Failed s' es e"
  shows "(s' = s \<and> es = []) \<or> (\<exists>a. m s = Done s [] a \<and> k a s = Failed s' es e)"
proof (cases "m s")
  case (Done s1 es1 a)
  then have "s1 = s" "es1 = []" using assms(1,2) by simp_all
  then show ?thesis using assms(3) Done by (simp add: bind_def prepend_Nil)
next
  case (Failed s1 es1 e1)
  then have "s1 = s" "es1 = []" using assms(1,2) by simp_all
  then show ?thesis using assms(3) Failed by (simp add: bind_def)
qed

lemma cmd_add_Failed:
  assumes "cmd_add sha1 file s = Failed s' es err"
  shows "s' = s \<and> es = []"
proof -
  let ?np = "normpath file"
  let ?k3 = "\<lambda>index sha_hex. bind (write_index (Some (filter (\<lambda>e. path e \<noteq> ?np) (get_staged index)
                      @ [\<lparr>path = ?np, sha = sha_hex\<rparr>]))) (\<lambda>u. print (MsgAdded ?np))"
  let ?k2 = "\<lambda>index. bind (hash_file_bytes sha1 ?np) (?k3 index)"
  let ?k1 = "\<lambda>(u::unit) s. if \<not> exists_spelling s file then raise (ArgFileNotFound file) s
                else bind read_index ?k2 s"
  have c: "cmd_add sha1 file = bind ensure_repo ?k1"
    unfolding cmd_add_def Let_def ..
  have "bind ensure_repo ?k1 s = Failed s' es err" using assms c by simp
  from bind_pure_Failed[OF ensure_repo_pure this]
  consider "s' = s \<and> es = []" | "?k1 () s = Failed s' es err" by auto
  then show ?thesis
  proof cases
    case 1
    then show ?thesis .
  next
    case 2
    show ?thesis
    proof (cases "exists_spelling s file")
      case False
      then show ?thesis using 2 by (simp add: raise_def)
    next
      case True
      then have "bind read_index ?k2 s = Failed s' es err" using 2 by simp
      from bind_pure_Failed[OF read_index_pure this]
      consider "s' = s \<and> es = []" | index where "?k2 index s = Failed s' es err" by auto
      then show ?thesis
      proof cases
        case 1
        then show ?thesis .
      next
        case (2 index)
        from bind_pure_Failed[OF hash_file_bytes_pure 2]
        consider "s' = s \<and> es = []" | h where "?k3 index h s = Failed s' es err" by auto
        then show ?thesis
        proof cases
          case 1
          then show ?thesis .
        next
          case (2 h)
          then show ?thesis
            by (auto simp: bind_eq_Failed print_def write_index_def dest: write_file_Failed)
        qed
      qed
    qed
  qed
qed

lemma staged_of_index:
  "s INDEX_FILE = Some (File (IndexJson (Some st))) \<Longrightarrow> staged_of s = st"
proof -
  assume a: "s INDEX_FILE = Some (File (IndexJson (Some st)))"
  then have "read_index s = Done s [] (Some st)" by (simp add: read_index_eq_Done)
  then show ?thesis by (simp add: staged_of_def get_staged_def)
qed

lemma staged_of_get_staged:
  "read_index s = Done s [] index \<Longrightarrow> staged_of s = get_staged index"
  by (simp add: staged_of_def)

lemma cmd_add_staged:
  assumes "cmd_add sha1 file s = Done s' es r"
  shows "\<exists>c. s (normpath file) = Some (File c) \<and>
           staged_of s' = filter (\<lambda>e. path e \<noteq> normpath file) (staged_of s)
                            @ [\<lparr>path = normpath file, sha = hexdigest (sha1 c)\<rparr>] \<and>
           (\<forall>q. q \<noteq> INDEX_FILE \<longrightarrow> s' q = s q)"
proof -
  from cmd_add_Done[OF assms] obtain index c where
    ri: "read_index s = Done s [] index" and c: "s (normpath file) = Some (File c)" and
    s': "s' = s(INDEX_FILE \<mapsto> File (IndexJson (Some
                  (filter (\<lambda>e. path e \<noteq> normpath file) (get_staged index)
                     @ [\<lparr>path = normpath file, sha = hexdigest (sha1 c)\<rparr>]))))"
    by blast
  have "staged_of s' = filter (\<lambda>e. path e \<noteq> normpath file) (get_staged index)
                     @ [\<lparr>path = normpath file, sha = hexdigest (sha1 c)\<rparr>]"
    by (rule staged_of_index) (simp add: s')
  then show ?thesis using c s' staged_of_get_staged[OF ri] by auto
qed

lemma cmd_add_distinct:
  assumes "distinct (index_paths s)"
  shows "distinct (index_paths (state_of (cmd_add sha1 p s)))"
proof (cases "cmd_add sha1 p s")
  case (Done s' es r)
  from cmd_add_staged[OF Done] obtain c where
    st: "staged_of s' = filter (\<lambda>e. path e \<noteq> normpath p) (staged_of s)
                            @ [\<lparr>path = normpath p, sha = hexdigest (sha1 c)\<rparr>]"
    by blast
  have "distinct (map path (filter (\<lambda>e. path e \<noteq> normpath p) (staged_of s)))"
    using assms unfolding index_paths_def by (rule distinct_map_filter)
  then have "distinct (index_paths s')"
    unfolding index_paths_def st by auto
  then show ?thesis using Done by simp
next
  case (Failed s' es err)
  then show ?thesis using cmd_add_Failed[OF Failed] assms by simp
qed

lemma stage_all_distinct:
  "distinct (index_paths s) \<Longrightarrow> distinct (index_paths (stage_all sha1 ps s))"
proof (induction ps arbitrary: s)
  case Nil
  then show ?case by (simp add: stage_all_def)
next
  case (Cons p ps)
  have "distinct (index_paths (state_of (cmd_add sha1 p s)))"
    using Cons.prems by (rule cmd_add_distinct)
  then have "distinct (index_paths (stage_all sha1 ps (state_of (cmd_add sha1 p s))))"
    by (rule Cons.IH)
  then show ?case by (simp add: stage_all_def)
qed

lemma cmd_add_succeeds:
  assumes "isdir s MINIGIT_DIR" and "exists_spelling s P" and "s (normpath P) = Some (File c)"
      and "is_Done (read_index s)"
  shows "cmd_add sha1 P s =
           Done (s(INDEX_FILE \<mapsto> File (IndexJson (Some
                    (filter (\<lambda>e. path e \<noteq> normpath P) (staged_of s)
                       @ [\<lparr>path = normpath P, sha = hexdigest (sha1 c)\<rparr>])))))
                [Write INDEX_FILE (IndexJson (Some
                    (filter (\<lambda>e. path e \<noteq> normpath P) (staged_of s)
                       @ [\<lparr>path = normpath P, sha = hexdigest (sha1 c)\<rparr>]))),
                 Print (MsgAdded (normpath P))]
                ()"
proof -
  obtain s1 es1 index where r0: "read_index s = Done s1 es1 index"
    using assms(4) by (cases "read_index s") auto
  then have r: "read_index s = Done s [] index" by (simp add: read_index_eq_Done)
  have g: "get_staged index = staged_of s" using r by (simp add: staged_of_def)
  have e: "ensure_repo s = Done s [] ()" using assms(1) by (simp add: ensure_repo_def)
  have h: "hash_file_bytes sha1 (normpath P) s = Done s [] (hexdigest (sha1 c))"
    using assms(3) by (simp add: hash_file_bytes_eq_Done)
  have nd: "s INDEX_FILE \<noteq> Some Dir"
    using r by (auto simp: read_index_eq_Done split: if_splits)
  have pc: "parent_check s INDEX_FILE = None"
    using assms(1) unfolding parent_check_def dirname_INDEX_FILE Let_def
    by (simp add: isdir_def MINIGIT_DIR_def)
  have w: "\<And>d. write_index d s = Done (s(INDEX_FILE \<mapsto> File (IndexJson d)))
                                 [Write INDEX_FILE (IndexJson d)] ()"
    using nd pc by (simp add: write_index_def write_file_eq_Done)
  show ?thesis
    unfolding cmd_add_def
    by (simp add: bind_def e assms(2) r h w g Let_def print_def)
qed

text \<open>
  Claim C4 (staging replace-not-duplicate). After \<^verbatim>\<open>add P\<close> succeeds, the index
  holds exactly one entry whose path is the normalised form of \<open>P\<close>, whatever
  it held for that path before, and the entry carries the digest of the bytes
  the file had at this staging; so staging \<open>P\<close> again, under any spelling with
  the same normal form and with other content, replaces the entry. An index
  without duplicate paths stays so under one \<^verbatim>\<open>add\<close> and under any sequence
  of them. And \<^verbatim>\<open>add P\<close> does succeed, with the write of the index as its one
  change, whenever the repository is initialised, the spelling \<open>P\<close> resolves to
  something there, its normal form names a file and the index can be read.
\<close>

theorem staging_replace_not_duplicate:
  "(cmd_add sha1 P s = Done s' es () \<longrightarrow>
      (\<exists>c. s (normpath P) = Some (File c) \<and>
            filter (\<lambda>e. path e = normpath P) (staged_of s')
              = [\<lparr>path = normpath P, sha = hexdigest (sha1 c)\<rparr>]) \<and>
      (distinct (index_paths s) \<longrightarrow> distinct (index_paths s'))) \<and>
   (distinct (index_paths s) \<longrightarrow> distinct (index_paths (stage_all sha1 ps s))) \<and>
   (isdir s MINIGIT_DIR \<and> exists_spelling s P \<and> s (normpath P) = Some (File c0) \<and>
    is_Done (read_index s) \<longrightarrow>
      cmd_add sha1 P s =
        Done (s(INDEX_FILE \<mapsto> File (IndexJson (Some
                 (filter (\<lambda>e. path e \<noteq> normpath P) (staged_of s)
                    @ [\<lparr>path = normpath P, sha = hexdigest (sha1 c0)\<rparr>])))))
             [Write INDEX_FILE (IndexJson (Some
                 (filter (\<lambda>e. path e \<noteq> normpath P) (staged_of s)
                    @ [\<lparr>path = normpath P, sha = hexdigest (sha1 c0)\<rparr>]))),
              Print (MsgAdded (normpath P))]
             ())"
proof -
  have one: "(\<exists>c. s (normpath P) = Some (File c) \<and>
            filter (\<lambda>e. path e = normpath P) (staged_of s')
              = [\<lparr>path = normpath P, sha = hexdigest (sha1 c)\<rparr>]) \<and>
      (distinct (index_paths s) \<longrightarrow> distinct (index_paths s'))"
    if a: "cmd_add sha1 P s = Done s' es ()"
  proof -
    from cmd_add_staged[OF a] obtain c where c: "s (normpath P) = Some (File c)" and
      st: "staged_of s' = filter (\<lambda>e. path e \<noteq> normpath P) (staged_of s)
                            @ [\<lparr>path = normpath P, sha = hexdigest (sha1 c)\<rparr>]"
      by blast
    have f: "filter (\<lambda>e. path e = normpath P) (staged_of s')
              = [\<lparr>path = normpath P, sha = hexdigest (sha1 c)\<rparr>]"
      unfolding st by simp
    have "distinct (index_paths s')" if "distinct (index_paths s)"
      using cmd_add_distinct[OF that, of sha1 P] a by simp
    then show ?thesis using c f by blast
  qed
  show ?thesis using one stage_all_distinct cmd_add_succeeds by blast
qed

text \<open>
  Example: in the repository of the examples \<^verbatim>\<open>a.txt\<close> is staged holding
  \<^verbatim>\<open>hello\<close>, edited to \<^verbatim>\<open>hello world\<close> and staged again under the spelling
  \<^verbatim>\<open>./a.txt\<close>: the index has the one entry \<^verbatim>\<open>a.txt\<close>, with the new digest.
\<close>

definition ex_restaged :: "unit outcome" where
  "ex_restaged = cmd_add example_digest ''./a.txt'' ex_edited"

theorem staging_replace_not_duplicate_witness:
  "isdir ex_edited MINIGIT_DIR \<and> exists_spelling ex_edited ''./a.txt'' \<and>
   ex_edited ''./a.txt'' = None \<and>
   ex_edited (normpath ''./a.txt'') = Some (File (Raw ''hello world'')) \<and>
   is_Done (read_index ex_edited) \<and>
   normpath ''./a.txt'' = ''a.txt'' \<and>
   staged_of ex_edited
     = [\<lparr>path = ''a.txt'', sha = ''0000000000000000000000000000000000000005''\<rparr>] \<and>
   ex_restaged = Done (state_of ex_restaged) (events_of ex_restaged) () \<and>
   staged_of (state_of ex_restaged)
     = [\<lparr>path = ''a.txt'', sha = ''000000000000000000000000000000000000000b''\<rparr>] \<and>
   (\<exists>c. ex_edited (normpath ''./a.txt'') = Some (File c) \<and>
      filter (\<lambda>e. path e = normpath ''./a.txt'') (staged_of (state_of ex_restaged))
        = [\<lparr>path = normpath ''./a.txt'', sha = hexdigest (example_digest c)\<rparr>]) \<and>
   events_of ex_restaged
     = [Write INDEX_FILE (IndexJson (Some
          (filter (\<lambda>e. path e \<noteq> normpath ''./a.txt'') (staged_of ex_edited)
             @ [\<lparr>path = normpath ''./a.txt'',
                 sha = hexdigest (example_digest (Raw ''hello world''))\<rparr>]))),
        Print (MsgAdded (normpath ''./a.txt''))] \<and>
   distinct (index_paths example_repo) \<and>
   distinct (index_paths (stage_all example_digest [''a.txt'', ''./b.txt'', ''./a.txt''] example_repo)) \<and>
   index_paths (stage_all example_digest [''a.txt'', ''./b.txt'', ''./a.txt''] example_repo)
     = [''b.txt'', ''a.txt'']"
proof -
  have h1: "isdir ex_edited MINIGIT_DIR" by code_simp
  have h2: "exists_spelling ex_edited ''./a.txt''" by code_simp
  have h2': "ex_edited ''./a.txt'' = None" by code_simp
  have h3: "ex_edited (normpath ''./a.txt'') = Some (File (Raw ''hello world''))" by code_simp
  have h4: "is_Done (read_index ex_edited)" by code_simp
  have b: "normpath ''./a.txt'' = ''a.txt''" by code_simp
  have c: "staged_of ex_edited
     = [\<lparr>path = ''a.txt'', sha = ''0000000000000000000000000000000000000005''\<rparr>]"
    by code_simp
  have d: "staged_of (state_of ex_restaged)
     = [\<lparr>path = ''a.txt'', sha = ''000000000000000000000000000000000000000b''\<rparr>]"
    by code_simp
  have e: "distinct (index_paths example_repo)" by code_simp
  have f: "index_paths (stage_all example_digest [''a.txt'', ''./b.txt'', ''./a.txt''] example_repo)
     = [''b.txt'', ''a.txt'']"
    by code_simp
  note t = staging_replace_not_duplicate[of example_digest "''./a.txt''" ex_edited
      "state_of ex_restaged" "events_of ex_restaged"
      "[''a.txt'', ''./b.txt'', ''./a.txt'']" "Raw ''hello world''", folded ex_restaged_def]
  have s: "ex_restaged =
        Done (ex_edited(INDEX_FILE \<mapsto> File (IndexJson (Some
                 (filter (\<lambda>e. path e \<noteq> normpath ''./a.txt'') (staged_of ex_edited)
                    @ [\<lparr>path = normpath ''./a.txt'',
                        sha = hexdigest (example_digest (Raw ''hello world''))\<rparr>])))))
             [Write INDEX_FILE (IndexJson (Some
                 (filter (\<lambda>e. path e \<noteq> normpath ''./a.txt'') (staged_of ex_edited)
                    @ [\<lparr>path = normpath ''./a.txt'',
                        sha = hexdigest (example_digest (Raw ''hello world''))\<rparr>]))),
              Print (MsgAdded (normpath ''./a.txt''))]
             ()"
    using t h1 h2 h3 h4 by blast
  have a: "ex_restaged = Done (state_of ex_restaged) (events_of ex_restaged) ()"
    by (rule outcome_unit_collapse) code_simp
  have ev: "events_of ex_restaged
     = [Write INDEX_FILE (IndexJson (Some
          (filter (\<lambda>e. path e \<noteq> normpath ''./a.txt'') (staged_of ex_edited)
             @ [\<lparr>path = normpath ''./a.txt'',
                 sha = hexdigest (example_digest (Raw ''hello world''))\<rparr>]))),
        Print (MsgAdded (normpath ''./a.txt''))]"
    using arg_cong[OF s, of events_of] by simp
  have one: "\<exists>c. ex_edited (normpath ''./a.txt'') = Some (File c) \<and>
      filter (\<lambda>e. path e = normpath ''./a.txt'') (staged_of (state_of ex_restaged))
        = [\<lparr>path = normpath ''./a.txt'', sha = hexdigest (example_digest c)\<rparr>]"
    using t a by blast
  have g: "distinct (index_paths (stage_all example_digest [''a.txt'', ''./b.txt'', ''./a.txt''] example_repo))"
    using t[THEN conjunct2, THEN conjunct1] staging_replace_not_duplicate[of example_digest
      "''./a.txt''" example_repo "state_of ex_restaged" "events_of ex_restaged"
      "[''a.txt'', ''./b.txt'', ''./a.txt'']" "Raw ''hello world''", THEN conjunct2, THEN conjunct1] e
    by blast
  show ?thesis using h1 h2 h2' h3 h4 b c a d one ev e g f by blast
qed






end
